theory Spec2Isabelle
  imports Complex_Main "HOL-Library.Word" "HOL-Library.Multiset"
begin

unbundle bit_operations_syntax

section \<open>Data model (types.ts, game\_state.ts)\<close>

text \<open>
  \<^verbatim>\<open>type Player = 'BLACK' | 'WHITE'\<close> and \<^verbatim>\<open>type Cell = 0 | 1 | 2\<close>
  (0 empty, 1 a black stone, 2 a white stone).
\<close>

datatype player = BLACK | WHITE

datatype cell = Empty | Black | White

text \<open>
  A \<^verbatim>\<open>Position {x, y}\<close> is the pair \<open>(x, y)\<close> of its two numbers; a direction
  \<^verbatim>\<open>{dx, dy}\<close> is the pair \<open>(dx, dy)\<close>.
\<close>

type_synonym position = "int \<times> int"

type_synonym board = "cell list list"

record move =
  player :: player
  positions :: "position list"

text \<open>The \<^verbatim>\<open>winner?: Player | 'DRAW'\<close> field; \<^verbatim>\<open>undefined\<close> is \<open>None\<close>.\<close>

datatype outcome = Won player | DRAW

record gameState =
  board :: board
  currentPlayer :: player
  moveNumber :: int
  lastMove :: "move option"
  winner :: "outcome option"

definition BOARD_SIZE :: int where
  "BOARD_SIZE = 19"

text \<open>\<^verbatim>\<open>board[y][x]\<close>, read only after the source has checked the bounds.\<close>

definition cellAt :: "board \<Rightarrow> int \<Rightarrow> int \<Rightarrow> cell" where
  "cellAt b x y = b ! nat y ! nat x"

text \<open>\<^verbatim>\<open>board[y][x] = v\<close>.\<close>

definition setCell :: "board \<Rightarrow> int \<Rightarrow> int \<Rightarrow> cell \<Rightarrow> board" where
  "setCell b x y v = b[nat y := (b ! nat y)[nat x := v]]"

definition createEmptyBoard :: board where
  "createEmptyBoard = replicate (nat BOARD_SIZE) (replicate (nat BOARD_SIZE) Empty)"

definition createInitialState :: gameState where
  "createInitialState =
     \<lparr>board = createEmptyBoard, currentPlayer = BLACK, moveNumber = 0,
      lastMove = None, winner = None\<rparr>"

definition isInsideBoard :: "position \<Rightarrow> bool" where
  "isInsideBoard pos =
     (fst pos \<ge> 0 \<and> fst pos < BOARD_SIZE \<and> snd pos \<ge> 0 \<and> snd pos < BOARD_SIZE)"

text \<open>The 19 by 19 shape that the type \<^verbatim>\<open>Cell[][]\<close> of a game state promises.\<close>

definition wfBoard :: "board \<Rightarrow> bool" where
  "wfBoard b = (length b = nat BOARD_SIZE \<and> list_all (\<lambda>row. length row = nat BOARD_SIZE) b)"

definition switchPlayer :: "player \<Rightarrow> player" where
  "switchPlayer p = (if p = BLACK then WHITE else BLACK)"

text \<open>\<^verbatim>\<open>player === 'BLACK' ? 1 : 2\<close>, the stone a player places.\<close>

definition stoneOf :: "player \<Rightarrow> cell" where
  "stoneOf p = (if p = BLACK then Black else White)"

section \<open>Rules (rules.ts)\<close>

text \<open>
  The four directions of \<^verbatim>\<open>DIRS\<close>: \<open>(1,0)\<close>, \<open>(0,1)\<close>, \<open>(1,1)\<close>, \<open>(1,-1)\<close>. The
  constant array is an enumeration with its two components.
\<close>

datatype direction = DirH | DirV | DirD | DirA

fun dirDx :: "direction \<Rightarrow> int" where
  "dirDx DirH = 1"
| "dirDx DirV = 0"
| "dirDx DirD = 1"
| "dirDx DirA = 1"

fun dirDy :: "direction \<Rightarrow> int" where
  "dirDy DirH = 0"
| "dirDy DirV = 1"
| "dirDy DirD = 1"
| "dirDy DirA = -1"

definition DIRS :: "direction list" where
  "DIRS = [DirH, DirV, DirD, DirA]"

definition getStonesToPlace :: "int \<Rightarrow> player \<Rightarrow> int" where
  "getStonesToPlace n p = (if n = 0 then 1 else 2)"

text \<open>
  The inner \<^verbatim>\<open>while\<close> of \<^verbatim>\<open>checkWinner\<close>: from \<open>(nx, ny)\<close> it walks in the
  direction while the cell is on the board and holds \<open>c\<close>, counting.
\<close>

function countRun :: "board \<Rightarrow> cell \<Rightarrow> direction \<Rightarrow> int \<Rightarrow> int \<Rightarrow> nat \<Rightarrow> nat" where
  "countRun b c d nx ny cnt =
     (if nx \<ge> 0 \<and> nx < BOARD_SIZE \<and> ny \<ge> 0 \<and> ny < BOARD_SIZE \<and> cellAt b nx ny = c
      then countRun b c d (nx + dirDx d) (ny + dirDy d) (cnt + 1)
      else cnt)"
  by pat_completeness auto
termination
proof (relation "measure (\<lambda>(b, c, d, nx, ny, cnt).
        if d = DirV then nat (BOARD_SIZE - ny) else nat (BOARD_SIZE - nx))")
  show "wf (measure (\<lambda>(b, c, d, nx, ny, cnt).
        if d = DirV then nat (BOARD_SIZE - ny) else nat (BOARD_SIZE - nx)))"
    by simp
next
  fix b :: board and c :: cell and d :: direction and nx ny :: int and cnt :: nat
  assume "nx \<ge> 0 \<and> nx < BOARD_SIZE \<and> ny \<ge> 0 \<and> ny < BOARD_SIZE \<and> cellAt b nx ny = c"
  then show "((b, c, d, nx + dirDx d, ny + dirDy d, cnt + 1), (b, c, d, nx, ny, cnt))
      \<in> measure (\<lambda>(b, c, d, nx, ny, cnt).
        if d = DirV then nat (BOARD_SIZE - ny) else nat (BOARD_SIZE - nx))"
    by (cases d) (auto simp: BOARD_SIZE_def)
qed

declare countRun.simps [simp del]

text \<open>The loop over \<^verbatim>\<open>DIRS\<close> at one non-empty cell, returning at the first run of six.\<close>

fun scanDirs :: "board \<Rightarrow> int \<Rightarrow> int \<Rightarrow> cell \<Rightarrow> direction list \<Rightarrow> outcome option" where
  "scanDirs b x y c [] = None"
| "scanDirs b x y c (d # ds) =
     (if countRun b c d (x + dirDx d) (y + dirDy d) 1 \<ge> 6
      then Some (Won (if c = Black then BLACK else WHITE))
      else scanDirs b x y c ds)"

text \<open>The cells in the order of \<^verbatim>\<open>for y { for x { ... } }\<close>.\<close>

definition boardCells :: "position list" where
  "boardCells = concat (map (\<lambda>y. map (\<lambda>x. (x, y)) [0..BOARD_SIZE - 1]) [0..BOARD_SIZE - 1])"

fun scanCells :: "board \<Rightarrow> position list \<Rightarrow> outcome option" where
  "scanCells b [] = None"
| "scanCells b (p # ps) =
     (if cellAt b (fst p) (snd p) = Empty then scanCells b ps
      else (case scanDirs b (fst p) (snd p) (cellAt b (fst p) (snd p)) DIRS of
              Some w \<Rightarrow> Some w
            | None \<Rightarrow> scanCells b ps))"

definition hasEmpty :: "board \<Rightarrow> bool" where
  "hasEmpty b = list_ex (\<lambda>p. cellAt b (fst p) (snd p) = Empty) boardCells"

definition checkWinner :: "gameState \<Rightarrow> outcome option" where
  "checkWinner state =
     (case scanCells (board state) boardCells of
        Some w \<Rightarrow> Some w
      | None \<Rightarrow> if \<not> hasEmpty (board state) then Some DRAW else None)"

text \<open>
  The \<^verbatim>\<open>throw new Error(...)\<close> of the sources, one constructor each: the four of
  \<^verbatim>\<open>applyMoveWithWinner\<close>, the one of \<^verbatim>\<open>pickBestByCenter\<close>, and those of
  \<^verbatim>\<open>MCTSConnect6AI.decideMove\<close> and \<^verbatim>\<open>decodeMoveKey\<close>.
\<close>

datatype error =
    WrongPlayer
  | WrongStoneCount int int
  | OutOfBounds position
  | Occupied position
  | PickBestEmpty
  | MctsNoMove
  | InvalidMoveKey

text \<open>Step 3: every position is checked against the board before any stone is written.\<close>

fun checkPositions :: "board \<Rightarrow> position list \<Rightarrow> error option" where
  "checkPositions b [] = None"
| "checkPositions b (pos # ps) =
     (if fst pos < 0 \<or> fst pos \<ge> BOARD_SIZE \<or> snd pos < 0 \<or> snd pos \<ge> BOARD_SIZE
      then Some (OutOfBounds pos)
      else if cellAt b (fst pos) (snd pos) \<noteq> Empty then Some (Occupied pos)
      else checkPositions b ps)"

text \<open>Step 4: \<^verbatim>\<open>for (const pos of move.positions) next.board[pos.y][pos.x] = value\<close>.\<close>

fun placeStones :: "board \<Rightarrow> cell \<Rightarrow> position list \<Rightarrow> board" where
  "placeStones b v [] = b"
| "placeStones b v (pos # ps) = placeStones (setCell b (fst pos) (snd pos) v) v ps"

definition applyMoveWithWinner :: "gameState \<Rightarrow> move \<Rightarrow> error + gameState" where
  "applyMoveWithWinner state mv =
     (if player mv \<noteq> currentPlayer state then Inl WrongPlayer
      else let required = getStonesToPlace (moveNumber state) (player mv) in
        if int (length (positions mv)) \<noteq> required
        then Inl (WrongStoneCount required (int (length (positions mv))))
        else (case checkPositions (board state) (positions mv) of
                Some e \<Rightarrow> Inl e
              | None \<Rightarrow>
                  let next = state
                        \<lparr>board := placeStones (board state) (stoneOf (player mv)) (positions mv),
                         lastMove := Some mv,
                         currentPlayer := (if player mv = BLACK then WHITE else BLACK),
                         moveNumber := moveNumber state + 1\<rparr>
                  in (case checkWinner next of
                        Some w \<Rightarrow> Inr (next\<lparr>winner := Some w\<rparr>)
                      | None \<Rightarrow> Inr next)))"

text \<open>\<^verbatim>\<open>applyMove\<close> of game\_state.ts: no validation and no winner check.\<close>

definition applyMove :: "gameState \<Rightarrow> move \<Rightarrow> gameState" where
  "applyMove state mv =
     state\<lparr>board := placeStones (board state) (stoneOf (player mv)) (positions mv),
           lastMove := Some mv,
           currentPlayer := (if player mv = BLACK then WHITE else BLACK),
           moveNumber := moveNumber state + 1\<rparr>"

section \<open>Specification predicates for the rules\<close>

text \<open>
  The legality condition as the specification words it, without the distinctness
  clause: the mover is the side to move, the number of stones is the one the turn
  asks for, and every position is on the board and empty.
\<close>

definition legalMove :: "gameState \<Rightarrow> move \<Rightarrow> bool" where
  "legalMove state mv =
     (player mv = currentPlayer state \<and>
      int (length (positions mv)) = getStonesToPlace (moveNumber state) (player mv) \<and>
      list_all (\<lambda>p. isInsideBoard p \<and> cellAt (board state) (fst p) (snd p) = Empty)
        (positions mv))"

text \<open>
  A straight line of six cells starting at \<open>p\<close> in direction \<open>d\<close>, all on the board
  and all holding \<open>c\<close>; a line of at least six consecutive cells contains one.
\<close>

definition sixAt :: "board \<Rightarrow> cell \<Rightarrow> position \<Rightarrow> direction \<Rightarrow> bool" where
  "sixAt b c p d =
     list_all (\<lambda>k. isInsideBoard (fst p + int k * dirDx d, snd p + int k * dirDy d) \<and>
                    cellAt b (fst p + int k * dirDx d) (snd p + int k * dirDy d) = c) [0..<6]"

definition hasSix :: "board \<Rightarrow> cell \<Rightarrow> bool" where
  "hasSix b c = list_ex (\<lambda>p. list_ex (sixAt b c p) DIRS) boardCells"

definition boardFull :: "board \<Rightarrow> bool" where
  "boardFull b = list_all (\<lambda>p. cellAt b (fst p) (snd p) \<noteq> Empty) boardCells"

text \<open>
  A cell starts a six when it is on the board, holds a stone, and the six cells from it in
  one of the four directions (right, down, down-right, up-right) all hold that colour.
  \<open>rowMajorBefore q' q\<close>: the cell \<open>q'\<close> lies in a row above \<open>q\<close>, or in the same row
  to the left of it.
\<close>

definition startsSix :: "board \<Rightarrow> position \<Rightarrow> bool" where
  "startsSix b q =
     (isInsideBoard q \<and> cellAt b (fst q) (snd q) \<noteq> Empty \<and>
      list_ex (sixAt b (cellAt b (fst q) (snd q)) q) DIRS)"

definition rowMajorBefore :: "position \<Rightarrow> position \<Rightarrow> bool" where
  "rowMajorBefore q' q = (snd q' < snd q \<or> (snd q' = snd q \<and> fst q' < fst q))"

section \<open>Road table (road\_encoding.ts)\<close>

record road =
  roadId :: nat
  cells :: "position list"

text \<open>
  The inner loop of \<^verbatim>\<open>precomputeRoads\<close> over \<open>k = 0..5\<close>: a cell off the board empties
  the array and leaves the loop.
\<close>

fun collectCells :: "direction \<Rightarrow> int \<Rightarrow> int \<Rightarrow> int list \<Rightarrow> position list \<Rightarrow> position list" where
  "collectCells d x y [] acc = acc"
| "collectCells d x y (k # ks) acc =
     (let nx = x + dirDx d * k; ny = y + dirDy d * k in
      if nx < 0 \<or> ny < 0 \<or> nx \<ge> BOARD_SIZE \<or> ny \<ge> BOARD_SIZE then []
      else collectCells d x y ks (acc @ [(nx, ny)]))"

text \<open>The cell arrays pushed, in the order of the three nested loops.\<close>

definition roadCellLists :: "position list list" where
  "roadCellLists =
     concat (map (\<lambda>d.
       concat (map (\<lambda>y.
         concat (map (\<lambda>x.
           (let cs = collectCells d x y [0..5] [] in if length cs = 6 then [cs] else []))
           [0..BOARD_SIZE - 1]))
         [0..BOARD_SIZE - 1]))
       DIRS)"

text \<open>\<^verbatim>\<open>roads.push({ id: id++, cells })\<close>: the ids count the pushes from 0.\<close>

definition precomputeRoads :: "road list" where
  "precomputeRoads =
     map (\<lambda>(i, cs). \<lparr>roadId = i, cells = cs\<rparr>) (enumerate 0 roadCellLists)"

definition ALL_ROADS :: "road list" where
  "ALL_ROADS = precomputeRoads"

definition getAllRoads :: "road list" where
  "getAllRoads = ALL_ROADS"

text \<open>
  The 2-bit code of a cell: \<open>00\<close> empty, \<open>01\<close> black, \<open>10\<close> white. JavaScript's bitwise
  operators work on 32-bit integers and mask the shift count to five bits.
\<close>

definition cellBits :: "cell \<Rightarrow> 32 word" where
  "cellBits c = (if c = Black then 1 else if c = White then 2 else 0)"

fun encodeLoop :: "board \<Rightarrow> position list \<Rightarrow> nat \<Rightarrow> 32 word \<Rightarrow> 32 word" where
  "encodeLoop b [] i code = code"
| "encodeLoop b (p # ps) i code =
     encodeLoop b ps (i + 1)
       (code OR push_bit ((i * 2) mod 32) (cellBits (cellAt b (fst p) (snd p))))"

definition encodeRoad :: "gameState \<Rightarrow> road \<Rightarrow> 32 word" where
  "encodeRoad state r = encodeLoop (board state) (cells r) 0 0"

text \<open>\<^verbatim>\<open>road.cells.some(c => c.x === pos.x && c.y === pos.y)\<close> and the stone counts.\<close>

fun isHighValueLoop :: "board \<Rightarrow> position \<Rightarrow> nat \<Rightarrow> road list \<Rightarrow> bool" where
  "isHighValueLoop b pos minSameColor [] = False"
| "isHighValueLoop b pos minSameColor (r # rs) =
     (if \<not> list_ex (\<lambda>c. fst c = fst pos \<and> snd c = snd pos) (cells r)
      then isHighValueLoop b pos minSameColor rs
      else let black = length (filter (\<lambda>c. cellAt b (fst c) (snd c) = Black) (cells r));
               white = length (filter (\<lambda>c. cellAt b (fst c) (snd c) = White) (cells r))
           in if black \<ge> minSameColor \<or> white \<ge> minSameColor then True
              else isHighValueLoop b pos minSameColor rs)"

definition isHighValueRoadCell :: "gameState \<Rightarrow> position \<Rightarrow> nat \<Rightarrow> bool" where
  "isHighValueRoadCell state pos minSameColor =
     isHighValueLoop (board state) pos minSameColor ALL_ROADS"

section \<open>Static evaluation (evaluation.ts)\<close>

record evaluationWeights =
  road_3_score :: real
  road_4_score :: real
  live4_score :: real
  live5_score :: real
  vcdt_bonus :: real

text \<open>
  The loop of \<^verbatim>\<open>countMaxRun\<close> over \<open>i = 0..5\<close>; the state is
  \<open>(myMax, oppMax, myCur, oppCur)\<close>. \<^verbatim>\<open>>>\<close> is the sign-propagating shift.
\<close>

fun countMaxRunLoop ::
  "32 word \<Rightarrow> 32 word \<Rightarrow> 32 word \<Rightarrow> nat list \<Rightarrow> nat \<times> nat \<times> nat \<times> nat \<Rightarrow> nat \<times> nat \<times> nat \<times> nat" where
  "countMaxRunLoop code myBits oppBits [] st = st"
| "countMaxRunLoop code myBits oppBits (i # is) (myMax, oppMax, myCur, oppCur) =
     (let bits = signed_drop_bit (i * 2) code AND 3;
          myCur' = (if bits = myBits then myCur + 1 else 0);
          oppCur' = (if bits = myBits then 0 else if bits = oppBits then oppCur + 1 else 0);
          myMax' = (if myCur' > myMax then myCur' else myMax);
          oppMax' = (if oppCur' > oppMax then oppCur' else oppMax)
      in countMaxRunLoop code myBits oppBits is (myMax', oppMax', myCur', oppCur'))"

text \<open>The result \<^verbatim>\<open>{ myMax, oppMax }\<close> is the pair \<open>(myMax, oppMax)\<close>.\<close>

definition countMaxRun :: "32 word \<Rightarrow> player \<Rightarrow> nat \<times> nat" where
  "countMaxRun code p =
     (let myBits = (if p = BLACK then 1 else 2);
          oppBits = (if p = BLACK then 2 else 1);
          st = countMaxRunLoop code myBits oppBits [0..<6] (0, 0, 0, 0)
      in (fst st, fst (snd st)))"

text \<open>
  The loop of \<^verbatim>\<open>evaluateRoads\<close>: a road with \<open>myMax \<ge> 6\<close> returns 1,000,000 at once;
  a road with \<open>oppMax \<ge> 6\<close> subtracts 1,000,000 and the loop goes on.
\<close>

fun evaluateRoadsLoop :: "gameState \<Rightarrow> player \<Rightarrow> road list \<Rightarrow> real \<Rightarrow> real" where
  "evaluateRoadsLoop state p [] score = score"
| "evaluateRoadsLoop state p (r # rs) score =
     (let code = encodeRoad state r;
          runs = countMaxRun code p
      in if fst runs \<ge> 6 then 1000000
         else evaluateRoadsLoop state p rs
                (if snd runs \<ge> 6 then score - 1000000 else score))"

definition evaluateRoads :: "gameState \<Rightarrow> player \<Rightarrow> evaluationWeights \<Rightarrow> real" where
  "evaluateRoads state p weights = evaluateRoadsLoop state p getAllRoads 0"

text \<open>
  Specification side: the roads all six of whose cells hold the colour \<open>c\<close>.
\<close>

definition roadFilledWith :: "board \<Rightarrow> cell \<Rightarrow> road \<Rightarrow> bool" where
  "roadFilledWith b c r = list_all (\<lambda>q. cellAt b (fst q) (snd q) = c) (cells r)"

definition filledRoads :: "board \<Rightarrow> cell \<Rightarrow> nat" where
  "filledRoads b c = length (filter (roadFilledWith b c) ALL_ROADS)"

section \<open>Threat detection (vcdt.ts)\<close>

record vcdtThreat =
  threatPositions :: "position list"
  isWinning :: bool
  threatLevel :: nat

text \<open>
  A JavaScript \<^verbatim>\<open>Set\<close> of keys that is filled together with an array: the key is
  present exactly when the element is in the array, so the array alone is kept and
  \<^verbatim>\<open>if (!set.has(key)) { set.add(key); array.push(e) }\<close> appends an absent element.
\<close>

definition addUnique :: "'a \<Rightarrow> 'a list \<Rightarrow> 'a list" where
  "addUnique e acc = (if e \<in> set acc then acc else acc @ [e])"

definition countCells :: "board \<Rightarrow> cell \<Rightarrow> position list \<Rightarrow> nat" where
  "countCells b v cs = length (filter (\<lambda>c. cellAt b (fst c) (snd c) = v) cs)"

definition emptyCells :: "board \<Rightarrow> position list \<Rightarrow> position list" where
  "emptyCells b cs = filter (\<lambda>c. cellAt b (fst c) (snd c) = Empty) cs"

text \<open>
  \<^verbatim>\<open>detectWinningMoves\<close>: on a road with five stones of the player and none of the
  opponent, the empty cell is added to the set of winning cells.
\<close>

definition detectWinningMoves :: "gameState \<Rightarrow> player \<Rightarrow> position list" where
  "detectWinningMoves state p =
     foldl (\<lambda>winningCells r.
        if countCells (board state) (stoneOf (switchPlayer p)) (cells r) = 0 \<and>
           countCells (board state) (stoneOf p) (cells r) = 5
        then foldl (\<lambda>acc c. addUnique c acc) winningCells (emptyCells (board state) (cells r))
        else winningCells)
       [] getAllRoads"

text \<open>
  \<^verbatim>\<open>detectLive4Segments\<close> and \<^verbatim>\<open>detectTwoStoneWinningPairs\<close>: roads with four
  stones of the player, two empty cells and no stone of the opponent. Both keep a set of
  keys made of the two empty cells in a canonical order, so a pair is pushed once
  whatever the order of its cells; the model looks for the pair in either order.
\<close>

definition addPair :: "position list \<Rightarrow> position list list \<Rightarrow> position list list" where
  "addPair e acc = (if e \<in> set acc \<or> rev e \<in> set acc then acc else acc @ [e])"

definition detectLive4Segments :: "gameState \<Rightarrow> player \<Rightarrow> position list list" where
  "detectLive4Segments state p =
     foldl (\<lambda>segments r.
        if countCells (board state) (stoneOf (switchPlayer p)) (cells r) = 0 \<and>
           countCells (board state) (stoneOf p) (cells r) = 4 \<and>
           length (emptyCells (board state) (cells r)) = 2
        then addPair (emptyCells (board state) (cells r)) segments
        else segments)
       [] getAllRoads"

definition detectTwoStoneWinningPairs :: "gameState \<Rightarrow> player \<Rightarrow> position list list" where
  "detectTwoStoneWinningPairs state p =
     foldl (\<lambda>pairs r.
        if countCells (board state) (stoneOf (switchPlayer p)) (cells r) = 0 \<and>
           countCells (board state) (stoneOf p) (cells r) = 4 \<and>
           length (emptyCells (board state) (cells r)) = 2
        then addPair (emptyCells (board state) (cells r)) pairs
        else pairs)
       [] getAllRoads"

text \<open>The pairs \<open>(i, j)\<close>, \<open>i < j\<close>, of the nested loop over the winning cells.\<close>

fun pairsOf :: "'a list \<Rightarrow> ('a \<times> 'a) list" where
  "pairsOf [] = []"
| "pairsOf (a # as) = map (\<lambda>b. (a, b)) as @ pairsOf as"

definition detectVCDT :: "gameState \<Rightarrow> player \<Rightarrow> vcdtThreat list" where
  "detectVCDT state p =
     (let winningCells = detectWinningMoves state p;
          live4Segments = detectLive4Segments state p;
          twoStonePairs = detectTwoStoneWinningPairs state p
      in map (\<lambda>pos. \<lparr>threatPositions = [pos], isWinning = True, threatLevel = 0\<rparr>) winningCells
       @ map (\<lambda>pr. \<lparr>threatPositions = pr, isWinning = True, threatLevel = 1\<rparr>) twoStonePairs
       @ (if length winningCells \<ge> 2
          then map (\<lambda>(a, b). \<lparr>threatPositions = [a, b], isWinning = True, threatLevel = 1\<rparr>)
                 (pairsOf winningCells)
          else [])
       @ map (\<lambda>seg. \<lparr>threatPositions = seg, isWinning = False, threatLevel = 2\<rparr>) live4Segments)"

section \<open>Candidate generation (rzop.ts)\<close>

text \<open>
  \<^verbatim>\<open>Array.prototype.sort\<close> with a comparator: the sort is stable, so for a comparator
  that orders by a key the result is the one of a stable insertion sort.
\<close>

fun insertBy :: "('a \<Rightarrow> 'a \<Rightarrow> real) \<Rightarrow> 'a \<Rightarrow> 'a list \<Rightarrow> 'a list" where
  "insertBy cmp a [] = [a]"
| "insertBy cmp a (b # bs) = (if cmp b a > 0 then a # b # bs else b # insertBy cmp a bs)"

definition jsSort :: "('a \<Rightarrow> 'a \<Rightarrow> real) \<Rightarrow> 'a list \<Rightarrow> 'a list" where
  "jsSort cmp as = foldl (\<lambda>acc a. insertBy cmp a acc) [] as"

definition occupiedCells :: "board \<Rightarrow> position list" where
  "occupiedCells b = filter (\<lambda>p. cellAt b (fst p) (snd p) \<noteq> Empty) boardCells"

text \<open>The \<open>dy\<close>, \<open>dx\<close> loops of \<^verbatim>\<open>computeRelevantZones\<close> around one occupied cell.\<close>

definition zoneAround :: "board \<Rightarrow> int \<Rightarrow> position \<Rightarrow> position list \<Rightarrow> position list" where
  "zoneAround b radius p result =
     foldl (\<lambda>res dy.
        foldl (\<lambda>res dx.
           (let nx = fst p + dx; ny = snd p + dy in
            if nx < 0 \<or> ny < 0 \<or> nx \<ge> BOARD_SIZE \<or> ny \<ge> BOARD_SIZE then res
            else if cellAt b nx ny \<noteq> Empty then res
            else addUnique (nx, ny) res))
          res [- radius..radius])
       result [- radius..radius]"

definition computeRelevantZones :: "gameState \<Rightarrow> int \<Rightarrow> position list" where
  "computeRelevantZones state radius =
     (let occupied = occupiedCells (board state) in
      if length occupied = 0
      then (let c = BOARD_SIZE div 2;
                base = (c, c) # filter (\<lambda>q. \<not> (fst q < 0 \<or> snd q < 0 \<or>
                                   fst q \<ge> BOARD_SIZE \<or> snd q \<ge> BOARD_SIZE))
                         (map (\<lambda>(dx, dy). (c + dx, c + dy)) [(1, 0), (0, 1), (-1, 0), (0, -1)])
            in filter (\<lambda>q. cellAt (board state) (fst q) (snd q) = Empty) base)
      else foldl (\<lambda>res p. zoneAround (board state) radius p res) [] occupied)"

text \<open>
  One window of \<^verbatim>\<open>findUrgentThreatBlocks\<close>: start \<open>(x, y)\<close>, direction \<open>d\<close>. Only the end
  cell is tested against the board, as in the source.
\<close>

definition urgentStep ::
  "board \<Rightarrow> cell \<Rightarrow> cell \<Rightarrow> direction \<Rightarrow> int \<Rightarrow> int \<Rightarrow> position list \<Rightarrow> position list" where
  "urgentStep b myVal oppVal d y x result =
     (let endX = x + dirDx d * 5; endY = y + dirDy d * 5 in
      if endX < 0 \<or> endY < 0 \<or> endX \<ge> BOARD_SIZE \<or> endY \<ge> BOARD_SIZE then result
      else
        (let cs = map (\<lambda>k. (x + dirDx d * k, y + dirDy d * k)) [0..5];
             oppCount = countCells b oppVal cs;
             myCount = countCells b myVal cs;
             empties = emptyCells b cs
         in if myCount > 0 then result
            else if oppCount \<ge> 5 \<and> length empties \<ge> 1
              then foldl (\<lambda>res e. addUnique e res) result empties
            else if oppCount \<ge> 4 \<and> length empties \<ge> 2
              then foldl (\<lambda>res e. addUnique e res) result empties
            else result))"

definition findUrgentThreatBlocks :: "gameState \<Rightarrow> position list" where
  "findUrgentThreatBlocks state =
     (let myVal = (if currentPlayer state = BLACK then Black else White);
          oppVal = (if myVal = Black then White else Black)
      in foldl (\<lambda>res d.
           foldl (\<lambda>res y.
             foldl (\<lambda>res x. urgentStep (board state) myVal oppVal d y x res)
               res [0..BOARD_SIZE - 1])
             res [0..BOARD_SIZE - 1])
           [] DIRS)"

definition isStrategicPosition :: "gameState \<Rightarrow> position \<Rightarrow> bool" where
  "isStrategicPosition state pos = True"

text \<open>
  \<^verbatim>\<open>isDeadLineCell\<close>: a direction has potential when some window through the cell,
  lying on the board, does not hold both colours; the cell is dead when no direction has.
  The loops only search, so they are \<open>list_ex\<close> and \<open>list_all\<close>.
\<close>

definition isDeadLineCell :: "gameState \<Rightarrow> position \<Rightarrow> bool" where
  "isDeadLineCell state pos =
     list_all (\<lambda>d.
        \<not> list_ex (\<lambda>k.
            (let sx = fst pos + k * dirDx d; sy = snd pos + k * dirDy d;
                 ex = sx + dirDx d * 5; ey = sy + dirDy d * 5
             in isInsideBoard (sx, sy) \<and> isInsideBoard (ex, ey) \<and>
                (let cs = map (\<lambda>t. (sx + dirDx d * t, sy + dirDy d * t)) [0..5];
                     hasBlack = list_ex (\<lambda>c. cellAt (board state) (fst c) (snd c) = Black) cs;
                     hasWhite = list_ex (\<lambda>c. cellAt (board state) (fst c) (snd c) = White) cs
                 in \<not> (hasBlack \<and> hasWhite))))
          [-5..0])
       DIRS"

text \<open>
  The two \<^verbatim>\<open>while\<close> loops of \<^verbatim>\<open>isPureLineExtension\<close>: the run of non-empty cells
  from \<open>(x, y)\<close> forwards in the direction, and backwards.
\<close>

function runForward :: "board \<Rightarrow> direction \<Rightarrow> int \<Rightarrow> int \<Rightarrow> nat \<Rightarrow> nat" where
  "runForward b d x y runLen =
     (if x \<ge> 0 \<and> y \<ge> 0 \<and> x < BOARD_SIZE \<and> y < BOARD_SIZE \<and> cellAt b x y \<noteq> Empty
      then runForward b d (x + dirDx d) (y + dirDy d) (runLen + 1)
      else runLen)"
  by pat_completeness auto
termination
proof (relation "measure (\<lambda>(b, d, x, y, runLen).
        if d = DirV then nat (BOARD_SIZE - y) else nat (BOARD_SIZE - x))")
  show "wf (measure (\<lambda>(b, d, x, y, runLen).
        if d = DirV then nat (BOARD_SIZE - y) else nat (BOARD_SIZE - x)))"
    by simp
next
  fix b :: board and d :: direction and x y :: int and runLen :: nat
  assume "x \<ge> 0 \<and> y \<ge> 0 \<and> x < BOARD_SIZE \<and> y < BOARD_SIZE \<and> cellAt b x y \<noteq> Empty"
  then show "((b, d, x + dirDx d, y + dirDy d, runLen + 1), (b, d, x, y, runLen))
      \<in> measure (\<lambda>(b, d, x, y, runLen).
        if d = DirV then nat (BOARD_SIZE - y) else nat (BOARD_SIZE - x))"
    by (cases d) (auto simp: BOARD_SIZE_def)
qed

function runBackward :: "board \<Rightarrow> direction \<Rightarrow> int \<Rightarrow> int \<Rightarrow> nat \<Rightarrow> nat" where
  "runBackward b d x y runLen =
     (if x \<ge> 0 \<and> y \<ge> 0 \<and> x < BOARD_SIZE \<and> y < BOARD_SIZE \<and> cellAt b x y \<noteq> Empty
      then runBackward b d (x - dirDx d) (y - dirDy d) (runLen + 1)
      else runLen)"
  by pat_completeness auto
termination
proof (relation "measure (\<lambda>(b, d, x, y, runLen).
        if d = DirV then nat (y + 1) else nat (x + 1))")
  show "wf (measure (\<lambda>(b, d, x, y, runLen).
        if d = DirV then nat (y + 1) else nat (x + 1)))"
    by simp
next
  fix b :: board and d :: direction and x y :: int and runLen :: nat
  assume "x \<ge> 0 \<and> y \<ge> 0 \<and> x < BOARD_SIZE \<and> y < BOARD_SIZE \<and> cellAt b x y \<noteq> Empty"
  then show "((b, d, x - dirDx d, y - dirDy d, runLen + 1), (b, d, x, y, runLen))
      \<in> measure (\<lambda>(b, d, x, y, runLen).
        if d = DirV then nat (y + 1) else nat (x + 1))"
    by (cases d) (auto simp: BOARD_SIZE_def)
qed

declare runForward.simps [simp del] runBackward.simps [simp del]

definition isPureLineExtension :: "gameState \<Rightarrow> position \<Rightarrow> bool" where
  "isPureLineExtension state pos =
     list_ex (\<lambda>d.
        runBackward (board state) d (fst pos - dirDx d) (snd pos - dirDy d)
          (runForward (board state) d (fst pos + dirDx d) (snd pos + dirDy d) 0) \<ge> 5)
       DIRS"

text \<open>
  The state of the second loop of \<^verbatim>\<open>generateRZOPCandidates\<close>: the candidates (with
  their \<^verbatim>\<open>seen\<close> set) and the three quota maps.
\<close>

record rzopAcc =
  candidates :: "position list"
  rowCount :: "int \<rightharpoonup> nat"
  diag1Count :: "int \<rightharpoonup> nat"
  diag2Count :: "int \<rightharpoonup> nat"

definition MAX_NON_URGENT_PER_LINE :: nat where
  "MAX_NON_URGENT_PER_LINE = 4"

definition getOr0 :: "(int \<rightharpoonup> nat) \<Rightarrow> int \<Rightarrow> nat" where
  "getOr0 m k = (case m k of None \<Rightarrow> 0 | Some v \<Rightarrow> v)"

definition rzopStep :: "gameState \<Rightarrow> position list \<Rightarrow> rzopAcc \<Rightarrow> position \<Rightarrow> rzopAcc" where
  "rzopStep state urgent acc pos =
     (if pos \<in> set urgent then acc
      else if \<not> isHighValueRoadCell state pos 3 then acc
      else if \<not> isStrategicPosition state pos then acc
      else if isPureLineExtension state pos then acc
      else if isDeadLineCell state pos then acc
      else
        (let rowKey = snd pos; d1Key = fst pos - snd pos; d2Key = fst pos + snd pos;
             rowUsed = getOr0 (rowCount acc) rowKey;
             d1Used = getOr0 (diag1Count acc) d1Key;
             d2Used = getOr0 (diag2Count acc) d2Key
         in if rowUsed \<ge> MAX_NON_URGENT_PER_LINE then acc
            else if d1Used \<ge> MAX_NON_URGENT_PER_LINE then acc
            else if d2Used \<ge> MAX_NON_URGENT_PER_LINE then acc
            else acc\<lparr>candidates := addUnique pos (candidates acc),
                     rowCount := (rowCount acc)(rowKey \<mapsto> rowUsed + 1),
                     diag1Count := (diag1Count acc)(d1Key \<mapsto> d1Used + 1),
                     diag2Count := (diag2Count acc)(d2Key \<mapsto> d2Used + 1)\<rparr>))"

text \<open>The comparator of the final sort: urgent cells first, then the distance to the centre.\<close>

definition rzopCompare :: "position list \<Rightarrow> position \<Rightarrow> position \<Rightarrow> real" where
  "rzopCompare urgent a b =
     (let center = (BOARD_SIZE - 1) div 2;
          aUrgent = (if a \<in> set urgent then 0 else 1 :: int);
          bUrgent = (if b \<in> set urgent then 0 else 1 :: int)
      in if aUrgent \<noteq> bUrgent then real_of_int (aUrgent - bUrgent)
         else real_of_int ((\<bar>fst a - center\<bar> + \<bar>snd a - center\<bar>) -
                           (\<bar>fst b - center\<bar> + \<bar>snd b - center\<bar>)))"

definition generateRZOPCandidates :: "gameState \<Rightarrow> position list" where
  "generateRZOPCandidates state =
     (let relevant = computeRelevantZones state 3;
          urgent = findUrgentThreatBlocks state;
          acc0 = \<lparr>candidates = foldl (\<lambda>cs p. addUnique p cs) [] urgent,
                  rowCount = Map.empty, diag1Count = Map.empty, diag2Count = Map.empty\<rparr>;
          acc = foldl (rzopStep state urgent) acc0 relevant
      in if length (candidates acc) = 0 then relevant
         else jsSort (rzopCompare urgent) (candidates acc))"

text \<open>
  Specification side (section 4.5, step 2): a cell is an urgent block when it is an empty
  cell of a window of six cells on the board that holds no stone of the side to move and
  either at least five opponent stones and at least one empty cell, or at least four
  opponent stones and at least two empty cells.
\<close>

definition windowCells :: "direction \<Rightarrow> position \<Rightarrow> position list" where
  "windowCells d start = map (\<lambda>k. (fst start + dirDx d * k, snd start + dirDy d * k)) [0..5]"

definition urgentWindow :: "gameState \<Rightarrow> direction \<Rightarrow> position \<Rightarrow> bool" where
  "urgentWindow state d start =
     (let cs = windowCells d start;
          mine = countCells (board state) (stoneOf (currentPlayer state)) cs;
          opp = countCells (board state) (stoneOf (switchPlayer (currentPlayer state))) cs;
          emp = length (emptyCells (board state) cs)
      in list_all isInsideBoard cs \<and> mine = 0 \<and>
         ((opp \<ge> 5 \<and> emp \<ge> 1) \<or> (opp \<ge> 4 \<and> emp \<ge> 2)))"

definition urgentBlockCell :: "gameState \<Rightarrow> position \<Rightarrow> bool" where
  "urgentBlockCell state p =
     list_ex (\<lambda>d. list_ex (\<lambda>start.
        urgentWindow state d start \<and> p \<in> set (emptyCells (board state) (windowCells d start)))
        boardCells) DIRS"

section \<open>The rest of the evaluator (evaluation.ts)\<close>

text \<open>
  Scores are JavaScript numbers. Finite values are modelled as reals (rounding is not
  modelled); the search also uses \<^verbatim>\<open>-Infinity\<close> and \<^verbatim>\<open>Infinity\<close> as bounds.
\<close>

definition evaluatePositional :: "gameState \<Rightarrow> player \<Rightarrow> real" where
  "evaluatePositional state p =
     (let myVal = stoneOf p; oppVal = stoneOf (switchPlayer p);
          center = (BOARD_SIZE - 1) div 2; maxDist = center * 2
      in foldl (\<lambda>score q.
           (let v = cellAt (board state) (fst q) (snd q);
                dist = \<bar>fst q - center\<bar> + \<bar>snd q - center\<bar>;
                positional = maxDist - dist
            in if v = Empty then score
               else if v = myVal then score + real_of_int (positional * 2)
               else if v = oppVal then score - real_of_int (positional * 2)
               else score))
         0 boardCells)"

definition evaluatePatterns :: "gameState \<Rightarrow> player \<Rightarrow> evaluationWeights \<Rightarrow> real" where
  "evaluatePatterns state p weights =
     (let myVal = stoneOf p; oppVal = stoneOf (switchPlayer p);
          shape = (\<lambda>mine other k r.
             countCells (board state) other (cells r) = 0 \<and>
             countCells (board state) mine (cells r) = k \<and>
             length (emptyCells (board state) (cells r)) = 6 - k);
          myLive4 = length (filter (shape myVal oppVal 4) getAllRoads);
          myLive5 = length (filter (shape myVal oppVal 5) getAllRoads);
          oppLive4 = length (filter (shape oppVal myVal 4) getAllRoads);
          oppLive5 = length (filter (shape oppVal myVal 5) getAllRoads);
          score = real myLive4 * live4_score weights + real myLive5 * live5_score weights
                  - real oppLive4 * live4_score weights * 0.8
                  - real oppLive5 * live5_score weights * 0.9;
          myVcdt = length (detectVCDT state p);
          oppVcdt = length (detectVCDT state (switchPlayer p))
      in score + (real myVcdt - real oppVcdt) * vcdt_bonus weights)"

definition countThreats :: "bool \<Rightarrow> nat \<Rightarrow> vcdtThreat list \<Rightarrow> nat" where
  "countThreats w l ts = length (filter (\<lambda>t. isWinning t = w \<and> threatLevel t = l) ts)"

definition evaluateThreatDefense :: "gameState \<Rightarrow> player \<Rightarrow> evaluationWeights \<Rightarrow> real" where
  "evaluateThreatDefense state p weights =
     (let oppThreats = detectVCDT state (switchPlayer p);
          oppWinning = countThreats True 0 oppThreats;
          oppDouble = countThreats True 1 oppThreats;
          oppLive4 = countThreats False 2 oppThreats;
          s1 = (if oppWinning > 0 then 0 - 200000 * real oppWinning else 0);
          s2 = (if oppDouble > 0 then s1 - 120000 * real oppDouble else s1);
          s3 = (if oppLive4 \<ge> 2 then s2 - 80000 * real oppLive4
                else if oppLive4 = 1 then s2 - 40000 else s2);
          myThreats = detectVCDT state p;
          myWinning = countThreats True 0 myThreats;
          myDouble = countThreats True 1 myThreats;
          myLive4 = countThreats False 2 myThreats;
          s4 = (if myWinning > 0 then s3 + 200000 * real myWinning else s3);
          s5 = (if myDouble > 0 then s4 + 100000 * real myDouble else s4)
      in if myLive4 \<ge> 2 then s5 + 30000 * real myLive4
         else if myLive4 = 1 then s5 + 10000 else s5)"

definition evaluateState :: "gameState \<Rightarrow> player \<Rightarrow> evaluationWeights \<Rightarrow> real" where
  "evaluateState state p weights =
     evaluateRoads state p weights + evaluatePatterns state p weights
     + evaluateThreatDefense state p weights + evaluatePositional state p"

section \<open>Search tables (pvs\_search.ts)\<close>

datatype jsnum = NegInfinity | Num real | Infinity

fun jsLess :: "jsnum \<Rightarrow> jsnum \<Rightarrow> bool" where
  "jsLess (Num a) (Num b) = (a < b)"
| "jsLess NegInfinity b = (b \<noteq> NegInfinity)"
| "jsLess a Infinity = (a \<noteq> Infinity)"
| "jsLess a b = False"

definition jsLessEq :: "jsnum \<Rightarrow> jsnum \<Rightarrow> bool" where
  "jsLessEq a b = (jsLess a b \<or> a = b)"

fun jsNeg :: "jsnum \<Rightarrow> jsnum" where
  "jsNeg (Num a) = Num (- a)"
| "jsNeg NegInfinity = Infinity"
| "jsNeg Infinity = NegInfinity"

text \<open>Adding a finite number: \<^verbatim>\<open>x + c\<close> and \<^verbatim>\<open>x - c\<close> with a finite \<open>c\<close>.\<close>

fun jsAdd :: "jsnum \<Rightarrow> real \<Rightarrow> jsnum" where
  "jsAdd (Num a) c = Num (a + c)"
| "jsAdd NegInfinity c = NegInfinity"
| "jsAdd Infinity c = Infinity"

definition MAX_ROOT_MOVE_COMBOS :: nat where "MAX_ROOT_MOVE_COMBOS = 50"
definition MAX_CHILD_MOVE_COMBOS :: nat where "MAX_CHILD_MOVE_COMBOS = 30"
definition MAX_TT_ENTRIES :: nat where "MAX_TT_ENTRIES = 1000000"
definition MAX_HISTORY_ENTRIES :: nat where "MAX_HISTORY_ENTRIES = 500000"
definition MIN_HISTORY_THRESHOLD :: int where "MIN_HISTORY_THRESHOLD = 100"
definition ASPIRATION_WINDOW :: real where "ASPIRATION_WINDOW = 50000"
definition QUIESCENCE_MAX_DEPTH :: int where "QUIESCENCE_MAX_DEPTH = 2"
definition MAX_KILLER_DEPTH :: nat where "MAX_KILLER_DEPTH = 32"

datatype ttFlag = EXACT | LOWER | UPPER

record ttEntry =
  ttDepth :: int
  ttScore :: jsnum
  ttFlagOf :: ttFlag
  ttBestMove :: "move option"

text \<open>
  A JavaScript \<^verbatim>\<open>Map\<close> keeps its entries in insertion order; \<^verbatim>\<open>set\<close> on a present key
  replaces the value in place, on an absent key appends the entry. The map is the list of
  its entries.
\<close>

type_synonym ('k, 'v) jsMap = "('k \<times> 'v) list"

definition mapGet :: "('k, 'v) jsMap \<Rightarrow> 'k \<Rightarrow> 'v option" where
  "mapGet m k = map_of m k"

fun mapSet :: "('k, 'v) jsMap \<Rightarrow> 'k \<Rightarrow> 'v \<Rightarrow> ('k, 'v) jsMap" where
  "mapSet [] k v = [(k, v)]"
| "mapSet (e # es) k v = (if fst e = k then (k, v) # es else e # mapSet es k v)"

text \<open>
  \<^verbatim>\<open>hashState\<close>: the rows of the board, the side to move and the move number, joined
  with separators; the string determines the three components and is modelled by them.
\<close>

type_synonym ttKey = "board \<times> player \<times> int"

definition hashState :: "gameState \<Rightarrow> ttKey" where
  "hashState state = (board state, currentPlayer state, moveNumber state)"

type_synonym transTable = "(ttKey, ttEntry) jsMap"

definition probeTT :: "transTable \<Rightarrow> gameState \<Rightarrow> int \<Rightarrow> jsnum \<Rightarrow> jsnum \<Rightarrow> ttEntry option" where
  "probeTT tt state depth alpha beta =
     (case mapGet tt (hashState state) of
        None \<Rightarrow> None
      | Some entry \<Rightarrow>
          if ttDepth entry < depth then None
          else if ttFlagOf entry = EXACT then Some entry
          else if ttFlagOf entry = LOWER \<and> jsLessEq beta (ttScore entry) then Some entry
          else if ttFlagOf entry = UPPER \<and> jsLessEq (ttScore entry) alpha then Some entry
          else None)"

text \<open>
  \<^verbatim>\<open>storeTT\<close>. On overflow the entries are sorted by depth, deepest first, the table is
  cleared and the first \<^verbatim>\<open>Math.floor(MAX_TT_ENTRIES * 0.8)\<close> = 800,000 are put back.
\<close>

definition storeTT ::
  "gameState \<Rightarrow> int \<Rightarrow> jsnum \<Rightarrow> jsnum \<Rightarrow> jsnum \<Rightarrow> move option \<Rightarrow> transTable \<Rightarrow> transTable" where
  "storeTT state depth score alpha beta bestMove tt =
     (let hash = hashState state; existing = mapGet tt hash in
      if (case existing of None \<Rightarrow> False | Some e \<Rightarrow> ttDepth e > depth) then tt
      else
        (let flag = (if jsLessEq score alpha then UPPER
                     else if jsLessEq beta score then LOWER else EXACT);
             tt' = mapSet tt hash
                     \<lparr>ttDepth = depth, ttScore = score, ttFlagOf = flag, ttBestMove = bestMove\<rparr>
         in if length tt' > MAX_TT_ENTRIES
            then (let entries = jsSort (\<lambda>a b. real_of_int (ttDepth (snd b) - ttDepth (snd a))) tt';
                      keep = 800000
                  in take keep entries)
            else tt'))"

type_synonym historyKey = "player \<times> position"

type_synonym historyTable = "(historyKey, int) jsMap"

definition historyKey :: "player \<Rightarrow> position \<Rightarrow> historyKey" where
  "historyKey p pos = (p, pos)"

text \<open>
  \<^verbatim>\<open>updateHistory\<close>. On overflow the entries are sorted by value, largest first; of the
  first \<^verbatim>\<open>Math.floor(MAX_HISTORY_ENTRIES * 0.7)\<close> = 350,000 the halved values above the
  threshold are put back.
\<close>

definition updateHistory :: "player \<Rightarrow> position \<Rightarrow> int \<Rightarrow> historyTable \<Rightarrow> historyTable" where
  "updateHistory p pos depth h =
     (let key = historyKey p pos;
          old = (case mapGet h key of None \<Rightarrow> 0 | Some v \<Rightarrow> v);
          next = old + depth * depth;
          h' = mapSet h key (min next 1000000)
      in if length h' > MAX_HISTORY_ENTRIES
         then (let entries = jsSort (\<lambda>a b. real_of_int (snd b - snd a)) h';
                   keep = 350000
               in map (\<lambda>(k, v). (k, v div 2))
                    (filter (\<lambda>(k, v). v div 2 > MIN_HISTORY_THRESHOLD) (take keep entries)))
         else h')"

definition getHistoryScore :: "historyTable \<Rightarrow> player \<Rightarrow> position \<Rightarrow> int" where
  "getHistoryScore h p pos = (case mapGet h (historyKey p pos) of None \<Rightarrow> 0 | Some v \<Rightarrow> v)"

text \<open>The killer table: \<^verbatim>\<open>MAX_KILLER_DEPTH\<close> slots of two optional moves.\<close>

type_synonym killerTable = "(move option \<times> move option) list"

definition initialKillers :: killerTable where
  "initialKillers = replicate MAX_KILLER_DEPTH (None, None)"

definition sortPositions :: "position list \<Rightarrow> position list" where
  "sortPositions ps =
     jsSort (\<lambda>p1 p2. if fst p1 = fst p2 then real_of_int (snd p1 - snd p2)
                      else real_of_int (fst p1 - fst p2)) ps"

definition sameMove :: "move option \<Rightarrow> move \<Rightarrow> bool" where
  "sameMove a b =
     (case a of
        None \<Rightarrow> False
      | Some a' \<Rightarrow>
          if length (positions a') \<noteq> length (positions b) then False
          else sortPositions (positions a') = sortPositions (positions b))"

definition storeKiller :: "int \<Rightarrow> move \<Rightarrow> killerTable \<Rightarrow> killerTable" where
  "storeKiller depth mv ks =
     (if depth \<le> 0 \<or> depth > int MAX_KILLER_DEPTH then ks
      else (let slot = ks ! nat (depth - 1) in
            if \<not> sameMove (fst slot) mv then ks[nat (depth - 1) := (Some mv, fst slot)]
            else ks))"

definition findKillerBonus :: "killerTable \<Rightarrow> int \<Rightarrow> move \<Rightarrow> real" where
  "findKillerBonus ks depth mv =
     (if depth \<le> 0 \<or> depth > int MAX_KILLER_DEPTH then 0
      else (let slot = ks ! nat (depth - 1) in
            if sameMove (fst slot) mv then 25000
            else if sameMove (snd slot) mv then 12000
            else 0))"

definition resetKillers :: "killerTable \<Rightarrow> killerTable" where
  "resetKillers ks = map (\<lambda>slot. (None, None)) ks"

text \<open>
  The module-level state of pvs\_search.ts, and the clock: the \<open>n\<close>-th call of
  \<^verbatim>\<open>getCurrentTime\<close> returns \<open>clockReadings n\<close>.
\<close>

record searchGlobals =
  transpositionTable :: transTable
  historyTab :: historyTable
  killerMoves :: killerTable
  lastSearchNodeCount :: nat
  lastSearchDepth :: int
  clockReadings :: "nat \<Rightarrow> real"
  clockIndex :: nat

definition getCurrentTime :: "searchGlobals \<Rightarrow> real \<times> searchGlobals" where
  "getCurrentTime g = (clockReadings g (clockIndex g), g\<lparr>clockIndex := clockIndex g + 1\<rparr>)"

section \<open>Move generation and ordering (pvs\_search.ts)\<close>

text \<open>
  \<^verbatim>\<open>addMove\<close> of \<^verbatim>\<open>generateTwoStoneMoves\<close>: the accumulator is the array
  \<^verbatim>\<open>moves\<close> and the set \<^verbatim>\<open>seen\<close> of keys; a key is the ordered pair of the two cells.
\<close>

definition addMove ::
  "gameState \<Rightarrow> player \<Rightarrow> nat \<Rightarrow> move list \<times> (position \<times> position) list \<Rightarrow> position \<Rightarrow> position
     \<Rightarrow> move list \<times> (position \<times> position) list" where
  "addMove state p maxCombos acc p1 p2 =
     (if fst p1 = fst p2 \<and> snd p1 = snd p2 then acc
      else if cellAt (board state) (fst p1) (snd p1) \<noteq> Empty then acc
      else if cellAt (board state) (fst p2) (snd p2) \<noteq> Empty then acc
      else
        (let aFirst = (if fst p1 < fst p2 \<or> (fst p1 = fst p2 \<and> snd p1 \<le> snd p2) then p1 else p2);
             bFirst = (if aFirst = p1 then p2 else p1);
             key = (aFirst, bFirst)
         in if key \<in> set (snd acc) then acc
            else ((if length (fst acc) < maxCombos
                   then fst acc @ [\<lparr>player = p, positions = [aFirst, bFirst]\<rparr>]
                   else fst acc),
                  snd acc @ [key])))"

text \<open>
  \<^verbatim>\<open>addDoubleWinningPairs\<close>; a \<^verbatim>\<open>break\<close> on a full array is modelled by skipping the
  remaining threats (the array never shrinks).
\<close>

definition addDoubleWinningPairs ::
  "gameState \<Rightarrow> player \<Rightarrow> nat \<Rightarrow> vcdtThreat list \<Rightarrow> move list \<times> (position \<times> position) list
     \<Rightarrow> move list \<times> (position \<times> position) list" where
  "addDoubleWinningPairs state p maxCombos threats acc =
     foldl (\<lambda>acc t.
        if length (fst acc) \<ge> maxCombos then acc
        else if \<not> isWinning t \<or> threatLevel t \<noteq> 1 then acc
        else (case threatPositions t of
                [p1, p2] \<Rightarrow> addMove state p maxCombos acc p1 p2
              | _ \<Rightarrow> acc))
       acc threats"

text \<open>
  The three pair loops; their headers test \<^verbatim>\<open>moves.length < maxCombos\<close> before every
  call of \<^verbatim>\<open>addMove\<close>.
\<close>

definition addPairs ::
  "gameState \<Rightarrow> player \<Rightarrow> nat \<Rightarrow> (position \<times> position) list
     \<Rightarrow> move list \<times> (position \<times> position) list \<Rightarrow> move list \<times> (position \<times> position) list" where
  "addPairs state p maxCombos prs acc =
     foldl (\<lambda>acc pr. if length (fst acc) < maxCombos then addMove state p maxCombos acc (fst pr) (snd pr)
                      else acc)
       acc prs"

definition generateTwoStoneMoves :: "gameState \<Rightarrow> position list \<Rightarrow> player \<Rightarrow> move list" where
  "generateTwoStoneMoves state cands p =
     (let n = length cands;
          maxCombos = min (n * (n - 1) div 2) 1000;
          myThreats = detectVCDT state p;
          oppThreats = detectVCDT state (switchPlayer p);
          acc1 = addDoubleWinningPairs state p maxCombos oppThreats ([], []);
          acc2 = addDoubleWinningPairs state p maxCombos myThreats acc1;
          centerDist = (\<lambda>q. \<bar>real_of_int (fst q) - 9.5\<bar> + \<bar>real_of_int (snd q) - 9.5\<bar>);
          scored = jsSort (\<lambda>a b. centerDist a - centerDist b) cands;
          pri = take (min 30 n) scored;
          backup = drop 30 scored;
          acc3 = addPairs state p maxCombos (pairsOf pri) acc2;
          acc4 = addPairs state p maxCombos (List.product pri backup) acc3;
          acc5 = addPairs state p maxCombos (pairsOf (take (min 20 (length backup)) backup)) acc4
      in fst acc5)"

text \<open>The first two empty cells of the board in row-major order.\<close>

definition findFallbackTwoStoneMove :: "gameState \<Rightarrow> player \<Rightarrow> move" where
  "findFallbackTwoStoneMove state p =
     (let empties = take 2 (concat (map (\<lambda>(y, row).
                       map (\<lambda>(x, c). (int x, int y)) (filter (\<lambda>(x, c). c = Empty) (enumerate 0 row)))
                     (enumerate 0 (board state))))
      in \<lparr>player = p, positions = empties\<rparr>)"

definition scoreMoveForOrdering ::
  "historyTable \<Rightarrow> killerTable \<Rightarrow> move \<Rightarrow> gameState \<Rightarrow> player \<Rightarrow> player \<Rightarrow> evaluationWeights \<Rightarrow> int
     \<Rightarrow> error + real" where
  "scoreMoveForOrdering h ks mv state rootPlayer toMove weights depth =
     (case applyMoveWithWinner state mv of
        Inl e \<Rightarrow> Inl e
      | Inr nextState \<Rightarrow>
          (let evalScore = evaluateState nextState rootPlayer weights;
               historyScore = foldl (\<lambda>s q. s + real_of_int (getHistoryScore h toMove q)) 0 (positions mv);
               killerBonus = findKillerBonus ks depth mv;
               myThreats = detectVCDT nextState toMove;
               oppThreats = detectVCDT nextState (switchPlayer toMove);
               myWinning = countThreats True 0 myThreats;
               t1 = (if myWinning > 0 then real myWinning * 200000 else 0);
               myDouble = countThreats True 1 myThreats;
               t2 = (if myDouble > 0 then t1 + real myDouble * 100000 else t1);
               myLive4 = countThreats False 2 myThreats;
               t3 = t2 + real myLive4 * 10000;
               oppWinning = countThreats True 0 oppThreats;
               t4 = (if oppWinning > 0 then t3 - real oppWinning * 180000 else t3);
               oppDouble = countThreats True 1 oppThreats;
               t5 = (if oppDouble > 0 then t4 - real oppDouble * 90000 else t4);
               oppLive4 = countThreats False 2 oppThreats;
               threatScore = t5 - real oppLive4 * 80000
           in Inr (evalScore + threatScore * 0.3 + historyScore * 0.1 + killerBonus)))"

text \<open>\<^verbatim>\<open>moves.map(m => ...)\<close> with a callback that may throw: the first error ends the map.\<close>

fun mapErr :: "('a \<Rightarrow> error + 'b) \<Rightarrow> 'a list \<Rightarrow> error + 'b list" where
  "mapErr f [] = Inr []"
| "mapErr f (a # as) =
     (case f a of
        Inl e \<Rightarrow> Inl e
      | Inr b \<Rightarrow> (case mapErr f as of Inl e \<Rightarrow> Inl e | Inr bs \<Rightarrow> Inr (b # bs)))"

definition orderMoves ::
  "historyTable \<Rightarrow> killerTable \<Rightarrow> move list \<Rightarrow> gameState \<Rightarrow> player \<Rightarrow> player \<Rightarrow> evaluationWeights \<Rightarrow> int
     \<Rightarrow> error + move list" where
  "orderMoves h ks moves state rootPlayer toMove weights depth =
     (case mapErr (\<lambda>m. case scoreMoveForOrdering h ks m state rootPlayer toMove weights depth of
                          Inl e \<Rightarrow> Inl e | Inr sc \<Rightarrow> Inr (m, sc)) moves of
        Inl e \<Rightarrow> Inl e
      | Inr scored \<Rightarrow> Inr (map fst (jsSort (\<lambda>a b. snd b - snd a) scored)))"

section \<open>Quiescence and principal-variation search (pvs\_search.ts)\<close>

text \<open>
  \<^verbatim>\<open>quiescenceSearch\<close> and its loop over the moves. It reads no module-level state.
\<close>

function quiescenceSearch ::
    "gameState \<Rightarrow> player \<Rightarrow> player \<Rightarrow> jsnum \<Rightarrow> jsnum \<Rightarrow> evaluationWeights \<Rightarrow> int \<Rightarrow> error + jsnum"
  and quiescenceLoop ::
    "gameState \<Rightarrow> player \<Rightarrow> player \<Rightarrow> jsnum \<Rightarrow> jsnum \<Rightarrow> evaluationWeights \<Rightarrow> int \<Rightarrow> move list
       \<Rightarrow> error + jsnum" where
  "quiescenceSearch state rootPlayer toMove alpha beta weights depth =
     (let standPat = Num (evaluateState state rootPlayer weights) in
      if depth \<ge> QUIESCENCE_MAX_DEPTH then Inr standPat
      else if jsLessEq beta standPat then Inr standPat
      else quiescenceLoop state rootPlayer toMove
             (if jsLess alpha standPat then standPat else alpha) beta weights depth
             (take MAX_CHILD_MOVE_COMBOS
                (generateTwoStoneMoves state (generateRZOPCandidates state) toMove)))"
| "quiescenceLoop state rootPlayer toMove alpha beta weights depth [] = Inr alpha"
| "quiescenceLoop state rootPlayer toMove alpha beta weights depth (mv # mvs) =
     (case applyMoveWithWinner state mv of
        Inl e \<Rightarrow> Inl e
      | Inr next \<Rightarrow>
          (case quiescenceSearch next rootPlayer (switchPlayer toMove) (jsNeg beta) (jsNeg alpha)
                  weights (depth + 1) of
             Inl e \<Rightarrow> Inl e
           | Inr r \<Rightarrow>
               if jsLessEq beta (jsNeg r) then Inr (jsNeg r)
               else quiescenceLoop state rootPlayer toMove
                      (if jsLess alpha (jsNeg r) then jsNeg r else alpha) beta weights depth mvs))"
  by pat_completeness auto
termination
proof (relation "measures
    [\<lambda>a. case a of
        Inl (state, rootPlayer, toMove, alpha, beta, weights, depth) \<Rightarrow> 2 * nat (2 - depth)
      | Inr (state, rootPlayer, toMove, alpha, beta, weights, depth, mvs) \<Rightarrow>
          max 1 (2 * nat (2 - depth) - 1),
     \<lambda>a. case a of
        Inl (state, rootPlayer, toMove, alpha, beta, weights, depth) \<Rightarrow> 0
      | Inr (state, rootPlayer, toMove, alpha, beta, weights, depth, mvs) \<Rightarrow> length mvs]")
  show "wf (measures
    [\<lambda>a. case a of
        Inl (state, rootPlayer, toMove, alpha, beta, weights, depth) \<Rightarrow> 2 * nat (2 - depth)
      | Inr (state, rootPlayer, toMove, alpha, beta, weights, depth, mvs) \<Rightarrow>
          max 1 (2 * nat (2 - depth) - 1),
     \<lambda>a. case a of
        Inl (state, rootPlayer, toMove, alpha, beta, weights, depth) \<Rightarrow> 0
      | Inr (state, rootPlayer, toMove, alpha, beta, weights, depth, mvs) \<Rightarrow> length mvs])"
    by simp
qed (auto simp: QUIESCENCE_MAX_DEPTH_def)

declare quiescenceSearch.simps [simp del]

text \<open>
  The state of the move loop of \<^verbatim>\<open>pvs\<close>: \<open>bestScore\<close>, \<open>bestMove\<close>, \<open>localAlpha\<close>.
\<close>

record pvsLoopState =
  bestScoreOf :: jsnum
  bestMoveOf :: "move option"
  localAlphaOf :: jsnum

text \<open>
  \<^verbatim>\<open>pvs\<close> and its loop over the ordered moves. Every function returns the module-level
  state with its result, also when it throws.
\<close>

function pvs ::
    "gameState \<Rightarrow> player \<Rightarrow> player \<Rightarrow> jsnum \<Rightarrow> jsnum \<Rightarrow> int \<Rightarrow> evaluationWeights \<Rightarrow> real \<Rightarrow> bool
       \<Rightarrow> searchGlobals \<Rightarrow> (error + jsnum) \<times> searchGlobals"
  and pvsLoop ::
    "gameState \<Rightarrow> player \<Rightarrow> player \<Rightarrow> jsnum \<Rightarrow> int \<Rightarrow> evaluationWeights \<Rightarrow> real \<Rightarrow> bool
       \<Rightarrow> nat \<Rightarrow> move list \<Rightarrow> pvsLoopState \<Rightarrow> searchGlobals
       \<Rightarrow> (error + pvsLoopState) \<times> searchGlobals" where
  "pvs state rootPlayer toMove alpha beta depth weights deadline isPV g0 =
     (let g1 = g0\<lparr>lastSearchNodeCount := lastSearchNodeCount g0 + 1\<rparr>;
          now = fst (getCurrentTime g1);
          g = snd (getCurrentTime g1)
      in if now > deadline then (Inr (Num (evaluateState state rootPlayer weights)), g)
         else if winner state \<noteq> None then
           (if winner state = Some (Won rootPlayer)
            then (Inr (Num (1000000 + real_of_int (depth * 10000))), g)
            else (Inr (Num (- 1000000 - real_of_int (depth * 10000))), g))
         else if depth \<le> 0 then
           (quiescenceSearch state rootPlayer toMove alpha beta weights 0, g)
         else (case probeTT (transpositionTable g) state depth alpha beta of
            Some ttEntry \<Rightarrow> (Inr (ttScore ttEntry), g)
          | None \<Rightarrow>
             (let moves = generateTwoStoneMoves state (generateRZOPCandidates state) toMove in
              if length moves = 0 then
                (let evalScore = Num (evaluateState state rootPlayer weights) in
                 (Inr evalScore,
                  g\<lparr>transpositionTable :=
                       storeTT state depth evalScore alpha beta None (transpositionTable g)\<rparr>))
              else
                (case orderMoves (historyTab g) (killerMoves g)
                        (if length moves > MAX_CHILD_MOVE_COMBOS
                         then take MAX_CHILD_MOVE_COMBOS moves else moves)
                        state rootPlayer toMove weights depth of
                   Inl e \<Rightarrow> (Inl e, g)
                 | Inr ordered \<Rightarrow>
                    (case pvsLoop state rootPlayer toMove beta depth weights deadline isPV 0 ordered
                            \<lparr>bestScoreOf = NegInfinity, bestMoveOf = None, localAlphaOf = alpha\<rparr> g of
                       (Inl e, g') \<Rightarrow> (Inl e, g')
                     | (Inr st, g') \<Rightarrow>
                         (case bestMoveOf st of
                            Some bm \<Rightarrow>
                              (Inr (bestScoreOf st),
                               g'\<lparr>transpositionTable :=
                                     storeTT state depth (bestScoreOf st) alpha beta (Some bm)
                                       (transpositionTable g')\<rparr>)
                          | None \<Rightarrow> (Inr (bestScoreOf st), g')))))))"
| "pvsLoop state rootPlayer toMove beta depth weights deadline isPV i [] st g = (Inr st, g)"
| "pvsLoop state rootPlayer toMove beta depth weights deadline isPV i (mv # mvs) st g =
     (case applyMoveWithWinner state mv of
        Inl e \<Rightarrow> (Inl e, g)
      | Inr next \<Rightarrow>
         (case (if i = 0 \<or> \<not> isPV
                then pvs next rootPlayer (switchPlayer toMove) (jsNeg beta) (jsNeg (localAlphaOf st))
                       (depth - 1) weights deadline isPV g
                else (case pvs next rootPlayer (switchPlayer toMove)
                             (jsAdd (jsNeg (localAlphaOf st)) (- 1)) (jsNeg (localAlphaOf st))
                             (depth - 1) weights deadline False g of
                        (Inl e, g1) \<Rightarrow> (Inl e, g1)
                      | (Inr r, g1) \<Rightarrow>
                          if jsLess (localAlphaOf st) (jsNeg r) \<and> jsLess (jsNeg r) beta
                          then pvs next rootPlayer (switchPlayer toMove) (jsNeg beta)
                                 (jsNeg (localAlphaOf st)) (depth - 1) weights deadline True g1
                          else (Inr r, g1))) of
            (Inl e, g2) \<Rightarrow> (Inl e, g2)
          | (Inr r, g2) \<Rightarrow>
              (let score = jsNeg r;
                   st1 = (if jsLess (bestScoreOf st) score
                          then st\<lparr>bestScoreOf := score, bestMoveOf := Some mv\<rparr> else st);
                   raised = jsLess (localAlphaOf st1) score;
                   st2 = (if raised then st1\<lparr>localAlphaOf := score\<rparr> else st1);
                   g3 = (if raised
                         then g2\<lparr>historyTab :=
                                 foldl (\<lambda>h q. updateHistory toMove q depth h) (historyTab g2)
                                   (positions mv)\<rparr>
                         else g2)
               in if jsLessEq beta (localAlphaOf st2)
                  then (Inr st2, g3\<lparr>killerMoves := storeKiller depth mv (killerMoves g3)\<rparr>)
                  else pvsLoop state rootPlayer toMove beta depth weights deadline isPV (i + 1) mvs
                         st2 g3)))"
  by pat_completeness auto
termination
proof (relation "measures
    [\<lambda>a. case a of
        Inl (state, rootPlayer, toMove, alpha, beta, depth, rest) \<Rightarrow> 2 * nat depth
      | Inr (state, rootPlayer, toMove, beta, depth, rest) \<Rightarrow> max 1 (2 * nat depth - 1),
     \<lambda>a. case a of
        Inl (state, rootPlayer, toMove, alpha, beta, depth, rest) \<Rightarrow> 0
      | Inr (state, rootPlayer, toMove, beta, depth, weights, deadline, isPV, i, mvs, rest) \<Rightarrow>
          length mvs]")
  show "wf (measures
    [\<lambda>a. case a of
        Inl (state, rootPlayer, toMove, alpha, beta, depth, rest) \<Rightarrow> 2 * nat depth
      | Inr (state, rootPlayer, toMove, beta, depth, rest) \<Rightarrow> max 1 (2 * nat depth - 1),
     \<lambda>a. case a of
        Inl (state, rootPlayer, toMove, alpha, beta, depth, rest) \<Rightarrow> 0
      | Inr (state, rootPlayer, toMove, beta, depth, weights, deadline, isPV, i, mvs, rest) \<Rightarrow>
          length mvs])"
    by simp
qed auto

declare pvs.simps [simp del] pvsLoop.simps [simp del]

section \<open>Root forcing moves (pvs\_search.ts) and smart defence (smart\_defense.ts)\<close>

text \<open>
  The defensive filter of the threat builders: the positions of the threat that are on the
  board and empty, each once, in their order
  (\<^verbatim>\<open>if (!state.board[p.y] || state.board[p.y][p.x] !== 0) continue\<close>).
\<close>

definition threatEmpties :: "gameState \<Rightarrow> vcdtThreat \<Rightarrow> position list" where
  "threatEmpties state threat =
     foldl (\<lambda>empties q.
        if \<not> isInsideBoard q \<or> cellAt (board state) (fst q) (snd q) \<noteq> Empty then empties
        else addUnique q empties)
       [] (threatPositions threat)"

text \<open>
  \<^verbatim>\<open>const second = candidates[0] ?? must\<close>, the candidates being those of RZOP other
  than \<open>must\<close>.
\<close>

definition companionFor :: "gameState \<Rightarrow> position \<Rightarrow> position" where
  "companionFor state must =
     (case filter (\<lambda>q. \<not> (fst q = fst must \<and> snd q = snd must)) (generateRZOPCandidates state) of
        [] \<Rightarrow> must
      | c # cs \<Rightarrow> c)"

definition buildTwoStoneMoveFromThreat :: "gameState \<Rightarrow> player \<Rightarrow> vcdtThreat \<Rightarrow> move" where
  "buildTwoStoneMoveFromThreat state p threat =
     (let empties = threatEmpties state threat in
      if threatLevel threat = 2 \<and> length empties \<ge> 2
      then \<lparr>player = p, positions = [empties ! 0, empties ! 1]\<rparr>
      else if length empties \<ge> 1
      then \<lparr>player = p, positions = [empties ! 0, companionFor state (empties ! 0)]\<rparr>
      else findFallbackTwoStoneMove state p)"

text \<open>The coverage map of the third case: cells with their counts, in insertion order.\<close>

definition countCoverage :: "gameState \<Rightarrow> vcdtThreat list \<Rightarrow> (position, nat) jsMap" where
  "countCoverage state threats =
     foldl (\<lambda>m t.
        foldl (\<lambda>m q.
           if cellAt (board state) (fst q) (snd q) \<noteq> Empty then m
           else (case mapGet m q of
                   Some c \<Rightarrow> mapSet m q (c + 1)
                 | None \<Rightarrow> mapSet m q 1))
          m (threatPositions t))
       [] threats"

definition buildBlockMoveForOpponentDoubleWins ::
  "gameState \<Rightarrow> player \<Rightarrow> vcdtThreat list \<Rightarrow> move option" where
  "buildBlockMoveForOpponentDoubleWins state rootPlayer threats =
     (if length threats = 0 then None
      else if length threats = 1 \<and> length (threatPositions (threats ! 0)) = 2 then
        (let empties = filter (\<lambda>q. cellAt (board state) (fst q) (snd q) = Empty)
                         (threatPositions (threats ! 0))
         in if length empties = 2
            then Some \<lparr>player = rootPlayer, positions = [empties ! 0, empties ! 1]\<rparr>
            else if length empties = 1
            then Some \<lparr>player = rootPlayer,
                        positions = [empties ! 0, companionFor state (empties ! 0)]\<rparr>
            else None)
      else
        (let intersection =
               filter (\<lambda>q. cellAt (board state) (fst q) (snd q) = Empty \<and>
                            list_all (\<lambda>t. list_ex (\<lambda>r. fst r = fst q \<and> snd r = snd q)
                                            (threatPositions t)) (tl threats))
                 (threatPositions (threats ! 0))
         in if length intersection > 0
            then Some \<lparr>player = rootPlayer,
                        positions = [intersection ! 0, companionFor state (intersection ! 0)]\<rparr>
            else
              (let arr = jsSort (\<lambda>a b. real (snd b) - real (snd a)) (countCoverage state threats) in
               if length arr = 0 then None
               else
                 (let firstBlock = fst (arr ! 0);
                      secondBlock =
                        (if length arr \<ge> 2
                         then (if fst (arr ! 1) = firstBlock then companionFor state firstBlock
                               else fst (arr ! 1))
                         else companionFor state firstBlock)
                  in Some \<lparr>player = rootPlayer, positions = [firstBlock, secondBlock]\<rparr>))))"

text \<open>
  \<^verbatim>\<open>isSingleBlockSafe\<close>: the single stone is played through
  \<^verbatim>\<open>applyMoveWithWinner\<close>, whose exceptions it lets through.
\<close>

definition isSingleBlockSafe :: "gameState \<Rightarrow> player \<Rightarrow> position \<Rightarrow> error + bool" where
  "isSingleBlockSafe state rootPlayer blockPos =
     (if cellAt (board state) (fst blockPos) (snd blockPos) \<noteq> Empty then Inr False
      else (case applyMoveWithWinner state \<lparr>player = rootPlayer, positions = [blockPos]\<rparr> of
              Inl e \<Rightarrow> Inl e
            | Inr tmpState \<Rightarrow>
                (let oppThreatsAfter = detectVCDT tmpState (switchPlayer rootPlayer);
                     hasImmediateWin =
                       list_ex (\<lambda>t. isWinning t \<and> (threatLevel t = 0 \<or> threatLevel t = 1))
                         oppThreatsAfter
                 in Inr (\<not> hasImmediateWin))))"

definition centerDistance :: "position \<Rightarrow> int" where
  "centerDistance q =
     \<bar>fst q - (BOARD_SIZE - 1) div 2\<bar> + \<bar>snd q - (BOARD_SIZE - 1) div 2\<bar>"

definition pickBestByCenter :: "position list \<Rightarrow> error + position" where
  "pickBestByCenter cands =
     (case cands of
        [] \<Rightarrow> Inl PickBestEmpty
      | c # cs \<Rightarrow>
          Inr (foldl (\<lambda>best q. if centerDistance q < centerDistance best then q else best) c cs))"

definition buildSmartBlockForOpponentLive4 ::
  "gameState \<Rightarrow> player \<Rightarrow> vcdtThreat \<Rightarrow> error + move" where
  "buildSmartBlockForOpponentLive4 state rootPlayer threat =
     (let empties = threatEmpties state threat in
      if length empties \<ge> 2 then
        (case mapErr (\<lambda>e. case isSingleBlockSafe state rootPlayer e of
                             Inl err \<Rightarrow> Inl err | Inr safe \<Rightarrow> Inr (e, safe)) empties of
           Inl err \<Rightarrow> Inl err
         | Inr checked \<Rightarrow>
            (let safeSingles = map fst (filter snd checked) in
             if length safeSingles > 0 then
               (case pickBestByCenter safeSingles of
                  Inl err \<Rightarrow> Inl err
                | Inr must \<Rightarrow>
                    Inr \<lparr>player = rootPlayer, positions = [must, companionFor state must]\<rparr>)
             else Inr \<lparr>player = rootPlayer, positions = [empties ! 0, empties ! 1]\<rparr>))
      else if length empties = 1 then
        Inr \<lparr>player = rootPlayer, positions = [empties ! 0, companionFor state (empties ! 0)]\<rparr>
      else
        (let cands = generateRZOPCandidates state in
         Inr \<lparr>player = rootPlayer, positions = take 2 cands\<rparr>))"

text \<open>\<^verbatim>\<open>threats.find(t => ...)\<close>.\<close>

definition findThreat :: "bool \<Rightarrow> nat \<Rightarrow> vcdtThreat list \<Rightarrow> vcdtThreat option" where
  "findThreat w l ts = List.find (\<lambda>t. isWinning t = w \<and> threatLevel t = l) ts"

definition findVcdtRootMove :: "gameState \<Rightarrow> player \<Rightarrow> error + (move \<times> string) option" where
  "findVcdtRootMove state rootPlayer =
     (let myThreats = detectVCDT state rootPlayer;
          oppThreats = detectVCDT state (switchPlayer rootPlayer)
      in case findThreat True 0 myThreats of
           Some myWin \<Rightarrow> Inr (Some (buildTwoStoneMoveFromThreat state rootPlayer myWin, ''own_win''))
         | None \<Rightarrow>
            (let oppDoubleWins = filter (\<lambda>t. isWinning t \<and> threatLevel t = 1) oppThreats;
                 blocked = (if length oppDoubleWins > 0
                            then buildBlockMoveForOpponentDoubleWins state rootPlayer oppDoubleWins
                            else None)
             in case blocked of
                  Some mv \<Rightarrow> Inr (Some (mv, ''block_opp_double_win''))
                | None \<Rightarrow>
                   (case findThreat True 0 oppThreats of
                      Some oppWin \<Rightarrow>
                        Inr (Some (buildTwoStoneMoveFromThreat state rootPlayer oppWin,
                                   ''block_opp_win''))
                    | None \<Rightarrow>
                       (case findThreat False 2 oppThreats of
                          Some oppLive4 \<Rightarrow>
                            (case buildSmartBlockForOpponentLive4 state rootPlayer oppLive4 of
                               Inl e \<Rightarrow> Inl e
                             | Inr mv \<Rightarrow>
                                 Inr (Some (mv,
                                   if length (positions mv) \<ge> 2 then ''block_opp_live4_both_ends''
                                   else ''block_opp_live4_smart_single'')))
                        | None \<Rightarrow> Inr None))))"

section \<open>Root search with iterative deepening (pvs\_search.ts)\<close>

record searchConfig =
  maxDepthOf :: int
  timeLimitMs :: real
  useMultithreading :: bool

record debugInfo =
  engine :: string
  mode :: string
  reason :: "string option"
  dbgDepth :: int
  nodes :: nat
  ttSize :: nat

record aiMoveDecision =
  decisionMove :: move
  decisionScore :: jsnum
  decisionInfo :: debugInfo

text \<open>
  The variables of one iteration of the deepening loop (\<open>alpha\<close>, \<open>iterBestMove\<close>,
  \<open>iterBestScore\<close>, \<open>failed\<close>) and those kept across iterations (\<open>bestMove\<close>,
  \<open>bestScore\<close>, \<open>searchedDepth\<close>).
\<close>

record rootIterState =
  iterAlpha :: jsnum
  iterBestMove :: move
  iterBestScore :: jsnum
  iterFailed :: bool

record rootBest =
  rootBestMove :: move
  rootBestScore :: jsnum
  rootSearchedDepth :: int

text \<open>
  The loop over the sorted root moves. The child search \<^verbatim>\<open>pvs(next, rootPlayer, opp, a,
  b, d - 1, weights, deadline, isPV)\<close> and the clock are parameters: \<open>child next a b depth
  isPV\<close> and \<open>clock\<close>, both acting on the module-level state \<open>'g\<close>.
\<close>

fun rootMoveLoop ::
  "(gameState \<Rightarrow> jsnum \<Rightarrow> jsnum \<Rightarrow> int \<Rightarrow> bool \<Rightarrow> 'g \<Rightarrow> (error + jsnum) \<times> 'g) \<Rightarrow> ('g \<Rightarrow> real \<times> 'g)
     \<Rightarrow> gameState \<Rightarrow> real \<Rightarrow> int \<Rightarrow> jsnum \<Rightarrow> nat \<Rightarrow> move list \<Rightarrow> rootIterState \<Rightarrow> 'g
     \<Rightarrow> (error + rootIterState) \<times> 'g" where
  "rootMoveLoop child clock rootState deadline d beta i [] st g = (Inr st, g)"
| "rootMoveLoop child clock rootState deadline d beta i (mv # mvs) st g =
     (case applyMoveWithWinner rootState mv of
        Inl e \<Rightarrow> (Inl e, g)
      | Inr next \<Rightarrow>
         (case (if i = 0 \<or> iterFailed st
                then child next (jsNeg beta) (jsNeg (iterAlpha st)) (d - 1) True g
                else (case child next (jsAdd (jsNeg (iterAlpha st)) (- 1)) (jsNeg (iterAlpha st))
                             (d - 1) False g of
                        (Inl e, g1) \<Rightarrow> (Inl e, g1)
                      | (Inr r, g1) \<Rightarrow>
                          if jsLess (iterAlpha st) (jsNeg r) \<and> jsLess (jsNeg r) beta
                          then child next (jsNeg beta) (jsNeg (iterAlpha st)) (d - 1) True g1
                          else (Inr r, g1))) of
            (Inl e, g2) \<Rightarrow> (Inl e, g2)
          | (Inr r, g2) \<Rightarrow>
              (let score = jsNeg r;
                   st1 = (if jsLess (iterBestScore st) score
                          then st\<lparr>iterBestScore := score, iterBestMove := mv,
                                  iterAlpha := (if jsLess (iterAlpha st) score then score
                                                else iterAlpha st)\<rparr>
                          else st);
                   now = fst (clock g2);
                   g3 = snd (clock g2)
               in if now > deadline then (Inr (st1\<lparr>iterFailed := True\<rparr>), g3)
                  else rootMoveLoop child clock rootState deadline d beta (i + 1) mvs st1 g3)))"

text \<open>
  The deepening loop \<^verbatim>\<open>for (let d = 1; d <= maxDepth; d++)\<close>; \<open>order d\<close> is
  \<^verbatim>\<open>orderMoves(moveCombos, rootState, rootPlayer, rootPlayer, weights, d)\<close>.
\<close>

function iterativeDeepening ::
  "(gameState \<Rightarrow> jsnum \<Rightarrow> jsnum \<Rightarrow> int \<Rightarrow> bool \<Rightarrow> 'g \<Rightarrow> (error + jsnum) \<times> 'g) \<Rightarrow> ('g \<Rightarrow> real \<times> 'g)
     \<Rightarrow> (int \<Rightarrow> 'g \<Rightarrow> error + move list)
     \<Rightarrow> gameState \<Rightarrow> real \<Rightarrow> int \<Rightarrow> int \<Rightarrow> rootBest \<Rightarrow> 'g \<Rightarrow> (error + rootBest) \<times> 'g" where
  "iterativeDeepening child clock order rootState deadline maxDepth d best g =
     (if d \<le> maxDepth then
        (let now = fst (clock g); g1 = snd (clock g); timeLeft = deadline - now in
         if timeLeft < 100 then (Inr best, g1)
         else
           (let alpha = (if d = 1 then NegInfinity
                         else jsAdd (rootBestScore best) (- ASPIRATION_WINDOW));
                beta = (if d = 1 then Infinity else jsAdd (rootBestScore best) ASPIRATION_WINDOW)
            in case order d g1 of
                 Inl e \<Rightarrow> (Inl e, g1)
               | Inr sortedMoves \<Rightarrow>
                  (case rootMoveLoop child clock rootState deadline d beta 0 sortedMoves
                          \<lparr>iterAlpha = alpha, iterBestMove = rootBestMove best,
                           iterBestScore = NegInfinity, iterFailed = False\<rparr> g1 of
                     (Inl e, g2) \<Rightarrow> (Inl e, g2)
                   | (Inr st, g2) \<Rightarrow>
                       iterativeDeepening child clock order rootState deadline maxDepth (d + 1)
                         (if \<not> iterFailed st \<or> d = 1
                          then \<lparr>rootBestMove = iterBestMove st, rootBestScore = iterBestScore st,
                                rootSearchedDepth = d\<rparr>
                          else best)
                         g2)))
      else (Inr best, g))"
  by pat_completeness auto
termination
  by (relation "measure (\<lambda>(child, clock, order, rootState, deadline, maxDepth, d, best, g).
        nat (maxDepth + 1 - d))") auto

declare iterativeDeepening.simps [simp del]

definition pvsSearchBestMove ::
  "gameState \<Rightarrow> player \<Rightarrow> evaluationWeights \<Rightarrow> searchConfig \<Rightarrow> searchGlobals
     \<Rightarrow> (error + aiMoveDecision) \<times> searchGlobals" where
  "pvsSearchBestMove rootState rootPlayer weights config g0 =
     (let g1 = g0\<lparr>lastSearchNodeCount := 0\<rparr>;
          g2 = g1\<lparr>killerMoves := resetKillers (killerMoves g1)\<rparr>;
          maxDepth = max 1 (maxDepthOf config);
          timeLimit = timeLimitMs config;
          deadline = fst (getCurrentTime g2) + timeLimit;
          g = snd (getCurrentTime g2)
      in case findVcdtRootMove rootState rootPlayer of
           Inl e \<Rightarrow> (Inl e, g)
         | Inr (Some (vcdtMove, vcdtReason)) \<Rightarrow>
            (case applyMoveWithWinner rootState vcdtMove of
               Inl e \<Rightarrow> (Inl e, g)
             | Inr next \<Rightarrow>
                (let remainDepth = max 0 (maxDepth - 1) in
                 case (if remainDepth > 0
                       then (case pvs next rootPlayer (switchPlayer rootPlayer) NegInfinity Infinity
                                    remainDepth weights deadline True g of
                               (Inl e, g') \<Rightarrow> (Inl e, g')
                             | (Inr r, g') \<Rightarrow> (Inr (jsNeg r, 1 + remainDepth), g'))
                       else (Inr (Num (evaluateState next rootPlayer weights), 1), g)) of
                   (Inl e, g') \<Rightarrow> (Inl e, g')
                 | (Inr (score, searchedDepth), g') \<Rightarrow>
                     (Inr \<lparr>decisionMove = vcdtMove, decisionScore = score,
                           decisionInfo = \<lparr>engine = ''pvs+vcdt+zorp'', mode = ''vcdt_root'',
                             reason = Some vcdtReason, dbgDepth = searchedDepth,
                             nodes = lastSearchNodeCount g',
                             ttSize = length (transpositionTable g')\<rparr>\<rparr>,
                      g'\<lparr>lastSearchDepth := searchedDepth\<rparr>)))
         | Inr None \<Rightarrow>
            (let moveCombos0 = generateTwoStoneMoves rootState (generateRZOPCandidates rootState)
                                 rootPlayer
             in if length moveCombos0 = 0 then
                  (Inr \<lparr>decisionMove = findFallbackTwoStoneMove rootState rootPlayer,
                        decisionScore = Num (evaluateState rootState rootPlayer weights),
                        decisionInfo = \<lparr>engine = ''pvs+vcdt+zorp'', mode = ''no_candidate_fallback'',
                          reason = None, dbgDepth = 0, nodes = 0,
                          ttSize = length (transpositionTable g)\<rparr>\<rparr>, g)
                else
                  (case (if length moveCombos0 > MAX_ROOT_MOVE_COMBOS
                         then (case mapErr (\<lambda>m. case applyMoveWithWinner rootState m of
                                   Inl e \<Rightarrow> Inl e
                                 | Inr next \<Rightarrow>
                                     Inr (m, evaluateState next rootPlayer weights
                                            + real (countThreats True 0 (detectVCDT next rootPlayer))
                                              * 100000)) moveCombos0 of
                                 Inl e \<Rightarrow> Inl e
                               | Inr scored \<Rightarrow>
                                   Inr (map fst (take MAX_ROOT_MOVE_COMBOS
                                          (jsSort (\<lambda>a b. snd b - snd a) scored))))
                         else Inr moveCombos0) of
                     Inl e \<Rightarrow> (Inl e, g)
                   | Inr moveCombos \<Rightarrow>
                      (case iterativeDeepening
                              (\<lambda>next a b depth isPV.
                                 pvs next rootPlayer (switchPlayer rootPlayer) a b depth weights
                                   deadline isPV)
                              getCurrentTime
                              (\<lambda>d gl. orderMoves (historyTab gl) (killerMoves gl) moveCombos rootState
                                         rootPlayer rootPlayer weights d)
                              rootState deadline maxDepth 1
                              \<lparr>rootBestMove = moveCombos ! 0, rootBestScore = NegInfinity,
                               rootSearchedDepth = 0\<rparr> g of
                         (Inl e, g') \<Rightarrow> (Inl e, g')
                       | (Inr best, g') \<Rightarrow>
                           (Inr \<lparr>decisionMove = rootBestMove best, decisionScore = rootBestScore best,
                                 decisionInfo = \<lparr>engine = ''pvs+vcdt+zorp'', mode = ''normal'',
                                   reason = None, dbgDepth = rootSearchedDepth best,
                                   nodes = lastSearchNodeCount g',
                                   ttSize = length (transpositionTable g')\<rparr>\<rparr>,
                            g'\<lparr>lastSearchDepth := rootSearchedDepth best\<rparr>)))))"

section \<open>Final move choice of the tree search (mcts\_ai\_engine.ts)\<close>

text \<open>
  A move key is the string \<^verbatim>\<open>x1,y1,x2,y2\<close>; it is modelled by the list of numbers that
  \<^verbatim>\<open>key.split(',').map(Number)\<close> yields.
\<close>

type_synonym moveKey = "int list"

datatype mctsNode = MctsNode
  (nodeState: gameState) (nodePlayer: player) (visits: nat) (wins: real) (prior: real)
  (children: "(moveKey \<times> mctsNode) list") (isExpanded: bool) (lastVisitId: nat)

definition encodeMoveKey :: "move \<Rightarrow> moveKey" where
  "encodeMoveKey mv =
     [fst (positions mv ! 0), snd (positions mv ! 0), fst (positions mv ! 1), snd (positions mv ! 1)]"

definition decodeMoveKey :: "moveKey \<Rightarrow> player \<Rightarrow> error + move" where
  "decodeMoveKey key p =
     (case key of
        [x1, y1, x2, y2] \<Rightarrow> Inr \<lparr>player = p, positions = [(x1, y1), (x2, y2)]\<rparr>
      | _ \<Rightarrow> Inl InvalidMoveKey)"

text \<open>
  The numbers of the program are IEEE 754 double-precision values, and \<^verbatim>\<open>/\<close> yields the
  double nearest to the exact quotient. \<open>nearestDouble x\<close> is the double nearest to the
  real \<open>x\<close>, ties going to the even significand: \<open>binExponent\<close> finds the binary exponent
  of \<open>\<bar>x\<bar>\<close> (at least -1022, where the subnormal numbers begin, and at most 1023), the
  spacing of the doubles at that exponent is \<open>2\<^sup>e\<^sup>-\<^sup>5\<^sup>2\<close>, and a result of magnitude
  \<open>2\<^sup>1\<^sup>0\<^sup>2\<^sup>4\<close> or more is infinite.
\<close>

definition pow2 :: "int \<Rightarrow> real" where
  "pow2 e = (if 0 \<le> e then 2 ^ nat e else 1 / 2 ^ nat (- e))"

function binExponent :: "real \<Rightarrow> int \<Rightarrow> int" where
  "binExponent x e =
     (if 2 \<le> x \<and> e < 1023 then binExponent (x / 2) (e + 1)
      else if x < 1 \<and> - 1022 < e then binExponent (x * 2) (e - 1)
      else e)"
  by pat_completeness auto
termination
  by (relation "measure (\<lambda>(x, e). if 2 \<le> x then nat (1023 - e)
                                   else if x < 1 then nat (e + 1022) else 0)")
     auto

declare binExponent.simps [simp del]

definition roundHalfEven :: "real \<Rightarrow> int" where
  "roundHalfEven y =
     (let f = \<lfloor>y\<rfloor>; d = y - of_int f
      in if d < 1 / 2 then f else if 1 / 2 < d then f + 1 else if even f then f else f + 1)"

definition nearestDouble :: "real \<Rightarrow> jsnum" where
  "nearestDouble x =
     (if x = 0 then Num 0
      else let a = \<bar>x\<bar>;
               ulp = pow2 (binExponent a 0 - 52);
               r = of_int (roundHalfEven (a / ulp)) * ulp
           in if pow2 1024 \<le> r then (if x < 0 then NegInfinity else Infinity)
              else Num (if x < 0 then - r else r))"

text \<open>
  \<^verbatim>\<open>child.visits > 0 ? child.wins / child.visits : 0\<close>. The visit count is an integer
  below \<open>2\<^sup>5\<^sup>3\<close> and hence exact as a double; the divisor is not zero.
\<close>

definition winRateOf :: "mctsNode \<Rightarrow> jsnum" where
  "winRateOf child =
     (if visits child > 0 then nearestDouble (wins child / real (visits child)) else Num 0)"

text \<open>
  The variables of the selection loop of \<^verbatim>\<open>decideMove\<close>: \<open>bestMove\<close>, \<open>bestVisits\<close>
  (initially -1) and \<open>bestScore\<close> (initially \<^verbatim>\<open>-Infinity\<close>).
\<close>

record mctsBest =
  mctsBestMove :: "move option"
  mctsBestVisits :: int
  mctsBestScore :: jsnum

fun selectLoop :: "player \<Rightarrow> (moveKey \<times> mctsNode) list \<Rightarrow> mctsBest \<Rightarrow> error + mctsBest" where
  "selectLoop p [] best = Inr best"
| "selectLoop p ((key, child) # rest) best =
     (if int (visits child) > mctsBestVisits best \<or>
         (int (visits child) = mctsBestVisits best \<and> jsLess (mctsBestScore best) (winRateOf child))
      then (case decodeMoveKey key p of
              Inl e \<Rightarrow> Inl e
            | Inr mv \<Rightarrow>
                selectLoop p rest
                  \<lparr>mctsBestMove = Some mv, mctsBestVisits = int (visits child),
                   mctsBestScore = winRateOf child\<rparr>)
      else selectLoop p rest best)"

text \<open>The loop variables after the child \<open>c\<close> with the move \<open>mv\<close> has been taken.\<close>

definition bestOf :: "move \<Rightarrow> mctsNode \<Rightarrow> mctsBest" where
  "bestOf mv c =
     \<lparr>mctsBestMove = Some mv, mctsBestVisits = int (visits c), mctsBestScore = winRateOf c\<rparr>"

record mctsDecision =
  mctsMove :: move
  mctsScore :: jsnum
  mctsStrategy :: string
  mctsRootVisits :: nat

text \<open>
  The part of \<^verbatim>\<open>decideMove\<close> that follows the simulation loop, as a function of the root
  node that the simulations have left. (The simulations call the evaluator oracle and
  \<^verbatim>\<open>Math.random\<close>; they are not modelled.)
\<close>

definition decideMoveSelect :: "mctsNode \<Rightarrow> player \<Rightarrow> error + mctsDecision" where
  "decideMoveSelect rootNode p =
     (case selectLoop p (children rootNode)
             \<lparr>mctsBestMove = None, mctsBestVisits = - 1, mctsBestScore = NegInfinity\<rparr> of
        Inl e \<Rightarrow> Inl e
      | Inr best \<Rightarrow>
          (case mctsBestMove best of
             None \<Rightarrow> Inl MctsNoMove
           | Some mv \<Rightarrow>
               Inr \<lparr>mctsMove = mv, mctsScore = mctsBestScore best, mctsStrategy = ''deep'',
                     mctsRootVisits = visits rootNode\<rparr>))"

section \<open>Specification predicates for the search claims\<close>

text \<open>
  A single-point mate of a player: the empty cell of a road that holds five stones of the
  player and no stone of the opponent.
\<close>

definition singlePointMate :: "gameState \<Rightarrow> player \<Rightarrow> position \<Rightarrow> bool" where
  "singlePointMate state p c =
     list_ex (\<lambda>r. countCells (board state) (stoneOf p) (cells r) = 5 \<and>
                  countCells (board state) (stoneOf (switchPlayer p)) (cells r) = 0 \<and>
                  c \<in> set (emptyCells (board state) (cells r))) ALL_ROADS"

text \<open>
  The value Q of a child: the quotient \<open>wins / visits\<close> as the double-precision division
  gives it, and 0 for a child without visits.
\<close>

definition winRateQ :: "mctsNode \<Rightarrow> jsnum" where
  "winRateQ c = (if visits c = 0 then Num 0 else nearestDouble (wins c / real (visits c)))"

text \<open>
  A child is at least as good as another in the final choice when it has more visits, or
  as many visits and at least the value Q.
\<close>

definition atLeastAsGood :: "mctsNode \<Rightarrow> mctsNode \<Rightarrow> bool" where
  "atLeastAsGood a b =
     (visits b < visits a \<or> (visits b = visits a \<and> jsLessEq (winRateQ b) (winRateQ a)))"

text \<open>A cell that a stone can be placed on: on the board and empty.\<close>

definition freeCell :: "board \<Rightarrow> position \<Rightarrow> bool" where
  "freeCell b q = (isInsideBoard q \<and> cellAt b (fst q) (snd q) = Empty)"

section \<open>The calls of the child search, recorded\<close>

text \<open>
  The root loop takes the child search and the clock as parameters acting on any state.
  To state which child searches an iteration makes, the state is paired with the list of
  the calls made so far (lower bound, upper bound, depth, PV flag); the recording child
  appends its own call and otherwise behaves as the child it wraps.
\<close>

type_synonym searchCall = "jsnum \<times> jsnum \<times> int \<times> bool"

definition logChild ::
  "(gameState \<Rightarrow> jsnum \<Rightarrow> jsnum \<Rightarrow> int \<Rightarrow> bool \<Rightarrow> 'g \<Rightarrow> (error + jsnum) \<times> 'g)
     \<Rightarrow> gameState \<Rightarrow> jsnum \<Rightarrow> jsnum \<Rightarrow> int \<Rightarrow> bool \<Rightarrow> 'g \<times> searchCall list
     \<Rightarrow> (error + jsnum) \<times> ('g \<times> searchCall list)" where
  "logChild child nxt a b depth isPV gl =
     (fst (child nxt a b depth isPV (fst gl)),
      (snd (child nxt a b depth isPV (fst gl)), snd gl @ [(a, b, depth, isPV)]))"

definition logClock :: "('g \<Rightarrow> real \<times> 'g) \<Rightarrow> 'g \<times> searchCall list \<Rightarrow> real \<times> ('g \<times> searchCall list)" where
  "logClock clock gl = (fst (clock (fst gl)), (snd (clock (fst gl)), snd gl))"

definition logOrder ::
  "(int \<Rightarrow> 'g \<Rightarrow> error + move list) \<Rightarrow> int \<Rightarrow> 'g \<times> searchCall list \<Rightarrow> error + move list" where
  "logOrder order d gl = order d (fst gl)"

text \<open>
  A call inside the window \<open>(alpha, beta)\<close> of an iteration: its upper bound is at most
  \<open>-alpha\<close>, and its lower bound is \<open>-beta\<close> (a full-window search) or the upper
  bound minus one (a null-window search).
\<close>

definition inAspiration :: "jsnum \<Rightarrow> jsnum \<Rightarrow> searchCall \<Rightarrow> bool" where
  "inAspiration alpha beta c =
     (jsLessEq (fst (snd c)) (jsNeg alpha) \<and>
      (fst c = jsNeg beta \<or> fst c = jsAdd (fst (snd c)) (- 1)))"

text \<open>
  A scripted run of the root loop for the examples: one root move (the centre, on the
  empty board), a clock that stands still, and a child search that answers 0 at depth 0
  and -100000 at any other depth, so that the root sees the score 0 in the first
  iteration and 100000 in the second.
\<close>

definition scriptedChild ::
  "gameState \<Rightarrow> jsnum \<Rightarrow> jsnum \<Rightarrow> int \<Rightarrow> bool \<Rightarrow> unit \<Rightarrow> (error + jsnum) \<times> unit" where
  "scriptedChild nxt a b depth isPV g = (Inr (Num (if depth = 0 then 0 else - 100000)), g)"

definition frozenClock :: "unit \<Rightarrow> real \<times> unit" where
  "frozenClock g = (0, g)"

definition centreMove :: move where
  "centreMove = \<lparr>player = BLACK, positions = [(9, 9)]\<rparr>"

definition centreOrder :: "int \<Rightarrow> unit \<Rightarrow> error + move list" where
  "centreOrder d g = Inr [centreMove]"

section \<open>Specification predicates for the search tables\<close>

text \<open>
  The tables of one state come from those of another when the transposition table is the
  result of a sequence of \<^verbatim>\<open>storeTT\<close> calls on the earlier one and the history table
  the result of a sequence of \<^verbatim>\<open>updateHistory\<close> calls: nothing else has written to
  them, and in particular nothing has cleared them.
\<close>

type_synonym ttStore = "gameState \<times> int \<times> jsnum \<times> jsnum \<times> jsnum \<times> move option"

definition applyStores :: "transTable \<Rightarrow> ttStore list \<Rightarrow> transTable" where
  "applyStores tt ops = foldl (\<lambda>t (s, d, sc, a, b, m). storeTT s d sc a b m t) tt ops"

type_synonym historyUpdate = "player \<times> position \<times> int"

definition applyUpdates :: "historyTable \<Rightarrow> historyUpdate list \<Rightarrow> historyTable" where
  "applyUpdates h ops = foldl (\<lambda>t (p, q, d). updateHistory p q d t) h ops"

definition tablesFrom :: "searchGlobals \<Rightarrow> searchGlobals \<Rightarrow> bool" where
  "tablesFrom g g' =
     ((\<exists>ops. transpositionTable g' = applyStores (transpositionTable g) ops) \<and>
      (\<exists>ops. historyTab g' = applyUpdates (historyTab g) ops))"

section \<open>Verification\<close>

subsection \<open>Move application\<close>

lemma checkPositions_None_iff:
  "checkPositions b ps = None \<longleftrightarrow>
     (\<forall>p\<in>set ps. isInsideBoard p \<and> cellAt b (fst p) (snd p) = Empty)"
  by (induction ps) (auto simp: isInsideBoard_def)

lemma apply_legal:
  assumes "legalMove state mv"
  shows "\<exists>s'. applyMoveWithWinner state mv = Inr s' \<and>
          board s' = placeStones (board state) (stoneOf (player mv)) (positions mv) \<and>
          moveNumber s' = moveNumber state + 1 \<and>
          currentPlayer s' = switchPlayer (currentPlayer state) \<and>
          lastMove s' = Some mv"
proof -
  from assms have p: "player mv = currentPlayer state"
    and n: "int (length (positions mv)) = getStonesToPlace (moveNumber state) (player mv)"
    and c: "checkPositions (board state) (positions mv) = None"
    by (simp_all add: legalMove_def checkPositions_None_iff list_all_iff)
  show ?thesis
    unfolding applyMoveWithWinner_def Let_def using p n c
    by (simp add: switchPlayer_def split: option.split)
qed

lemma apply_illegal:
  assumes "\<not> legalMove state mv"
  shows "\<exists>e. applyMoveWithWinner state mv = Inl e"
proof (cases "player mv = currentPlayer state \<and>
      int (length (positions mv)) = getStonesToPlace (moveNumber state) (player mv)")
  case False
  then show ?thesis
    unfolding applyMoveWithWinner_def Let_def by auto
next
  case True
  with assms have "checkPositions (board state) (positions mv) \<noteq> None"
    by (simp add: legalMove_def checkPositions_None_iff list_all_iff)
  then obtain e where "checkPositions (board state) (positions mv) = Some e" by auto
  with True show ?thesis
    unfolding applyMoveWithWinner_def Let_def by simp
qed

text \<open>
  C1 (amended). For every well-formed state and every move whose positions are pairwise
  distinct, \<^verbatim>\<open>applyMoveWithWinner\<close> returns a successor state exactly when the mover
  is the side to move, the number of stones is \<^verbatim>\<open>getStonesToPlace(moveNumber)\<close>, and
  all positions are on the board and empty; otherwise it throws (an error value, never
  a silent no-op). The \<^verbatim>\<open>winner\<close> field of the state is not consulted: the
  condition is the same whether or not a winner is already set.
\<close>

theorem applyMoveWithWinner_legal_iff:
  assumes "wfBoard (board state)" and "distinct (positions mv)"
  shows "((\<exists>s'. applyMoveWithWinner state mv = Inr s') = legalMove state mv) \<and>
     ((\<exists>e. applyMoveWithWinner state mv = Inl e) = (\<not> legalMove state mv)) \<and>
     legalMove (state\<lparr>winner := w\<rparr>) mv = legalMove state mv"
proof -
  have "legalMove (state\<lparr>winner := w\<rparr>) mv = legalMove state mv"
    by (simp add: legalMove_def)
  then show ?thesis
    using apply_legal [of state mv] apply_illegal [of state mv]
    by (cases "legalMove state mv") auto
qed

text \<open>
  Witness for C1: Black's opening stone at the centre of the initial position.
\<close>

theorem applyMoveWithWinner_legal_iff_witness:
  "wfBoard (board createInitialState) \<and>
   distinct (positions \<lparr>player = BLACK, positions = [(9, 9)]\<rparr>) \<and>
   (\<exists>s'. applyMoveWithWinner createInitialState \<lparr>player = BLACK, positions = [(9, 9)]\<rparr> = Inr s')"
proof -
  have w: "wfBoard (board createInitialState)"
    by code_simp
  have d: "distinct (positions \<lparr>player = BLACK, positions = [(9, 9)]\<rparr>)"
    by simp
  have l: "legalMove createInitialState \<lparr>player = BLACK, positions = [(9, 9)]\<rparr>"
    by code_simp
  from applyMoveWithWinner_legal_iff [OF w d] l w d show ?thesis
    by blast
qed

text \<open>
  Counterexample to C1 as stated. A state whose winner is already set accepts a move
  (nothing in \<^verbatim>\<open>applyMoveWithWinner\<close> reads \<^verbatim>\<open>state.winner\<close>), and a two-stone
  move that names the same empty cell twice is accepted as well (the emptiness check
  reads the board before any stone is written).
\<close>

theorem applyMoveWithWinner_counterexample:
  "winner (createInitialState\<lparr>winner := Some (Won WHITE)\<rparr>) = Some (Won WHITE) \<and>
   \<not> isl (applyMoveWithWinner (createInitialState\<lparr>winner := Some (Won WHITE)\<rparr>)
            \<lparr>player = BLACK, positions = [(9, 9)]\<rparr>) \<and>
   \<not> distinct (positions \<lparr>player = WHITE, positions = [(3, 3), (3, 3)]\<rparr>) \<and>
   \<not> isl (applyMoveWithWinner
            (createInitialState\<lparr>board := setCell createEmptyBoard 9 9 Black,
               currentPlayer := WHITE, moveNumber := 1\<rparr>)
            \<lparr>player = WHITE, positions = [(3, 3), (3, 3)]\<rparr>)"
  by code_simp

subsection \<open>Winner detection\<close>

lemma countRun_ge_start: "n \<le> countRun b c d x y n"
proof (induction b c d x y n rule: countRun.induct)
  case (1 b c d nx ny cnt)
  show ?case
  proof (cases "nx \<ge> 0 \<and> nx < BOARD_SIZE \<and> ny \<ge> 0 \<and> ny < BOARD_SIZE \<and> cellAt b nx ny = c")
    case True
    with "1" have "cnt + 1 \<le> countRun b c d (nx + dirDx d) (ny + dirDy d) (cnt + 1)" by simp
    with True show ?thesis by (subst countRun.simps) simp
  next
    case False
    then show ?thesis by (subst countRun.simps) auto
  qed
qed

lemma countRun_ge_iff:
  "n + m \<le> countRun b c d x y n \<longleftrightarrow>
     (\<forall>k<m. isInsideBoard (x + int k * dirDx d, y + int k * dirDy d) \<and>
             cellAt b (x + int k * dirDx d) (y + int k * dirDy d) = c)"
proof (induction m arbitrary: x y n)
  case 0
  show ?case by (simp add: countRun_ge_start)
next
  case (Suc m)
  let ?P = "\<lambda>k. isInsideBoard (x + int k * dirDx d, y + int k * dirDy d) \<and>
             cellAt b (x + int k * dirDx d) (y + int k * dirDy d) = c"
  show ?case
  proof (cases "x \<ge> 0 \<and> x < BOARD_SIZE \<and> y \<ge> 0 \<and> y < BOARD_SIZE \<and> cellAt b x y = c")
    case True
    then have P0: "?P 0" by (simp add: isInsideBoard_def)
    have "n + Suc m \<le> countRun b c d x y n \<longleftrightarrow>
          (n + 1) + m \<le> countRun b c d (x + dirDx d) (y + dirDy d) (n + 1)"
      using True by (subst countRun.simps) simp
    also have "\<dots> \<longleftrightarrow> (\<forall>k<m. isInsideBoard (x + dirDx d + int k * dirDx d, y + dirDy d + int k * dirDy d) \<and>
             cellAt b (x + dirDx d + int k * dirDx d) (y + dirDy d + int k * dirDy d) = c)"
      by (rule Suc.IH)
    also have "\<dots> \<longleftrightarrow> (\<forall>k<m. ?P (Suc k))"
      by (simp add: algebra_simps)
    also have "\<dots> \<longleftrightarrow> (\<forall>k<Suc m. ?P k)"
      using P0 by (auto simp: less_Suc_eq_0_disj)
    finally show ?thesis .
  next
    case False
    then have "\<not> ?P 0" by (auto simp: isInsideBoard_def)
    then have "\<not> (\<forall>k<Suc m. ?P k)" by blast
    moreover have "countRun b c d x y n = n"
      using False by (subst countRun.simps) auto
    ultimately show ?thesis by simp
  qed
qed

lemma all_less_Suc_shift: "(\<forall>k<Suc m. P k) \<longleftrightarrow> P 0 \<and> (\<forall>k<m. P (Suc k))"
  by (auto simp: less_Suc_eq_0_disj)

lemma all_less_6_shift: "(\<forall>k<(6::nat). P k) \<longleftrightarrow> P 0 \<and> (\<forall>k<(5::nat). P (Suc k))"
proof -
  have "(6::nat) = Suc 5" by simp
  then show ?thesis by (simp only: all_less_Suc_shift)
qed

lemma sixAt_iff_countRun:
  "sixAt b c p d \<longleftrightarrow>
     isInsideBoard p \<and> cellAt b (fst p) (snd p) = c \<and>
     6 \<le> countRun b c d (fst p + dirDx d) (snd p + dirDy d) 1"
proof -
  define P where "P = (\<lambda>k. isInsideBoard (fst p + int k * dirDx d, snd p + int k * dirDy d) \<and>
                    cellAt b (fst p + int k * dirDx d) (snd p + int k * dirDy d) = c)"
  have "6 \<le> countRun b c d (fst p + dirDx d) (snd p + dirDy d) 1 \<longleftrightarrow> (\<forall>k<5. P (Suc k))"
    using countRun_ge_iff [of 1 5 b c d "fst p + dirDx d" "snd p + dirDy d"]
    by (simp add: algebra_simps P_def)
  moreover have "sixAt b c p d \<longleftrightarrow> (\<forall>k<6. P k)"
    by (auto simp: sixAt_def list_all_iff P_def)
  moreover have "P 0 \<longleftrightarrow> isInsideBoard p \<and> cellAt b (fst p) (snd p) = c"
    by (simp add: P_def)
  ultimately show ?thesis
    by (simp only: all_less_6_shift) blast
qed

lemma scanDirs_Some:
  "scanDirs b x y c ds = Some w \<Longrightarrow>
     w = Won (if c = Black then BLACK else WHITE) \<and>
     (\<exists>d\<in>set ds. 6 \<le> countRun b c d (x + dirDx d) (y + dirDy d) 1)"
  by (induction ds) (auto split: if_splits)

lemma scanDirs_None:
  "scanDirs b x y c ds = None \<longleftrightarrow>
     (\<forall>d\<in>set ds. \<not> 6 \<le> countRun b c d (x + dirDx d) (y + dirDy d) 1)"
  by (induction ds) (auto split: if_splits)


lemma set_boardCells: "set boardCells = {p. isInsideBoard p}"
proof -
  have "set boardCells = {0..BOARD_SIZE - 1} \<times> {0..BOARD_SIZE - 1}"
    by (auto simp: boardCells_def)
  also have "\<dots> = {p. isInsideBoard p}"
    by (auto simp: isInsideBoard_def)
  finally show ?thesis .
qed

lemma stoneOf_colour: "c \<noteq> Empty \<Longrightarrow> stoneOf (if c = Black then BLACK else WHITE) = c"
  by (cases c) (simp_all add: stoneOf_def)

lemma scanCells_Some:
  assumes "scanCells b ps = Some w" and "set ps \<subseteq> set boardCells"
  shows "\<exists>q. w = Won q \<and> (\<exists>p\<in>set ps. \<exists>d\<in>set DIRS. sixAt b (stoneOf q) p d)"
  using assms
proof (induction ps)
  case Nil
  then show ?case by simp
next
  case (Cons p ps)
  show ?case
  proof (cases "cellAt b (fst p) (snd p) \<noteq> Empty \<and>
                scanDirs b (fst p) (snd p) (cellAt b (fst p) (snd p)) DIRS \<noteq> None")
    case True
    then obtain w' where w': "scanDirs b (fst p) (snd p) (cellAt b (fst p) (snd p)) DIRS = Some w'"
      by auto
    with True Cons.prems have "w = w'" by simp
    let ?c = "cellAt b (fst p) (snd p)"
    let ?q = "if ?c = Black then BLACK else WHITE"
    from scanDirs_Some [OF w'] obtain d where wq: "w' = Won ?q" and d: "d \<in> set DIRS"
      and run: "6 \<le> countRun b ?c d (fst p + dirDx d) (snd p + dirDy d) 1"
      by blast
    from Cons.prems have "isInsideBoard p" by (simp add: set_boardCells)
    with run have "sixAt b ?c p d" by (simp add: sixAt_iff_countRun)
    moreover from True have "stoneOf ?q = ?c" by (simp add: stoneOf_colour)
    ultimately have "sixAt b (stoneOf ?q) p d" by simp
    with d wq \<open>w = w'\<close> show ?thesis by auto
  next
    case False
    with Cons.prems have "scanCells b ps = Some w" by (auto split: if_splits option.splits)
    with Cons.IH Cons.prems show ?thesis by auto
  qed
qed

lemma scanCells_None:
  assumes "scanCells b ps = None" and "p \<in> set ps" and "d \<in> set DIRS" and "c \<noteq> Empty"
  shows "\<not> sixAt b c p d"
  using assms
proof (induction ps)
  case Nil
  then show ?case by simp
next
  case (Cons a ps)
  show ?case
  proof (cases "p = a")
    case True
    show ?thesis
    proof
      assume six: "sixAt b c p d"
      then have c: "cellAt b (fst a) (snd a) = c"
        and run: "6 \<le> countRun b c d (fst a + dirDx d) (snd a + dirDy d) 1"
        using True by (simp_all add: sixAt_iff_countRun)
      from Cons.prems c have "scanDirs b (fst a) (snd a) c DIRS = None"
        by (auto split: if_splits option.splits)
      with run Cons.prems show False by (simp add: scanDirs_None)
    qed
  next
    case False
    moreover from Cons.prems have "scanCells b ps = None"
      by (auto split: if_splits option.splits)
    ultimately show ?thesis using Cons by auto
  qed
qed

lemma scanCells_board_Some:
  "scanCells b boardCells = Some w \<Longrightarrow> \<exists>q. w = Won q \<and> hasSix b (stoneOf q)"
  using scanCells_Some [of b boardCells w]
  by (auto simp: hasSix_def list_ex_iff)

lemma scanCells_board_None:
  "scanCells b boardCells = None \<Longrightarrow> c \<noteq> Empty \<Longrightarrow> \<not> hasSix b c"
  using scanCells_None [of b boardCells _ _ c]
  by (auto simp: hasSix_def list_ex_iff)

lemma hasEmpty_iff: "hasEmpty b \<longleftrightarrow> \<not> boardFull b"
  by (auto simp: hasEmpty_def boardFull_def list_ex_iff list_all_iff)

lemma stoneOf_cases: "stoneOf q = Black \<or> stoneOf q = White"
  by (simp add: stoneOf_def)

lemma find_sorted_wrt:
  assumes "sorted_wrt R xs" and asym: "\<And>a b. R a b \<Longrightarrow> \<not> R b a"
  shows "List.find P xs = Some q \<longleftrightarrow> q \<in> set xs \<and> P q \<and> (\<forall>q'\<in>set xs. R q' q \<longrightarrow> \<not> P q')"
  using assms(1)
proof (induction xs)
  case Nil
  show ?case by simp
next
  case (Cons x xs)
  then have first: "\<forall>y\<in>set xs. R x y" and rest: "sorted_wrt R xs" by simp_all
  from asym have irrefl: "\<not> R a a" for a by blast
  show ?case
  proof (cases "P x")
    case True
    have "q = x \<longleftrightarrow> (q = x \<or> q \<in> set xs) \<and> P q \<and> (R x q \<longrightarrow> \<not> P x) \<and> (\<forall>q'\<in>set xs. R q' q \<longrightarrow> \<not> P q')"
    proof
      assume "q = x"
      with True first asym irrefl show "(q = x \<or> q \<in> set xs) \<and> P q \<and> (R x q \<longrightarrow> \<not> P x) \<and>
          (\<forall>q'\<in>set xs. R q' q \<longrightarrow> \<not> P q')" by blast
    next
      assume "(q = x \<or> q \<in> set xs) \<and> P q \<and> (R x q \<longrightarrow> \<not> P x) \<and> (\<forall>q'\<in>set xs. R q' q \<longrightarrow> \<not> P q')"
      with True first show "q = x" by blast
    qed
    with True show ?thesis by (simp add: eq_commute [of x q])
  next
    case False
    have "List.find P (x # xs) = Some q \<longleftrightarrow> List.find P xs = Some q" using False by simp
    also have "\<dots> \<longleftrightarrow> q \<in> set xs \<and> P q \<and> (\<forall>q'\<in>set xs. R q' q \<longrightarrow> \<not> P q')"
      by (rule Cons.IH [OF rest])
    also have "\<dots> \<longleftrightarrow> q \<in> set (x # xs) \<and> P q \<and> (\<forall>q'\<in>set (x # xs). R q' q \<longrightarrow> \<not> P q')"
      using False by auto
    finally show ?thesis .
  qed
qed


lemma sorted_rows:
  fixes xs ys :: "int list"
  assumes "sorted_wrt (<) xs" and "sorted_wrt (<) ys"
  shows "sorted_wrt (\<lambda>a b. snd a < snd b \<or> (snd a = snd b \<and> fst a < fst b))
           (concat (map (\<lambda>y. map (\<lambda>x. (x, y)) xs) ys))"
  using assms(2)
proof (induction ys)
  case Nil
  show ?case by simp
next
  case (Cons y ys)
  then have "\<forall>y'\<in>set ys. y < y'" and "sorted_wrt (<) ys" by simp_all
  with Cons.IH assms(1) show ?case
    by (auto simp: sorted_wrt_append sorted_wrt_map)
qed

lemma sorted_boardCells: "sorted_wrt rowMajorBefore boardCells"
proof -
  have eq: "rowMajorBefore = (\<lambda>a b. snd a < snd b \<or> (snd a = snd b \<and> fst a < fst b))"
    by (rule ext)+ (simp add: rowMajorBefore_def)
  show ?thesis unfolding boardCells_def eq
    by (rule sorted_rows) simp_all
qed

lemma find_boardCells:
  "List.find P boardCells = Some q \<longleftrightarrow>
     isInsideBoard q \<and> P q \<and> (\<forall>q'. isInsideBoard q' \<and> rowMajorBefore q' q \<longrightarrow> \<not> P q')"
proof -
  have "\<not> rowMajorBefore b a" if "rowMajorBefore a b" for a b
    using that by (auto simp: rowMajorBefore_def)
  from find_sorted_wrt [OF sorted_boardCells this, of P q]
  show ?thesis by (simp add: set_boardCells Ball_def) blast
qed

lemma startsSix_iff_scanDirs:
  assumes "isInsideBoard p"
  shows "startsSix b p \<longleftrightarrow>
           cellAt b (fst p) (snd p) \<noteq> Empty \<and>
           scanDirs b (fst p) (snd p) (cellAt b (fst p) (snd p)) DIRS \<noteq> None"
  using assms by (auto simp: startsSix_def list_ex_iff sixAt_iff_countRun scanDirs_None)

lemma scanDirs_value:
  "scanDirs b x y c ds = Some w \<Longrightarrow> w = Won (if c = Black then BLACK else WHITE)"
  using scanDirs_Some by blast

lemma scanCells_find:
  assumes "set ps \<subseteq> set boardCells"
  shows "scanCells b ps =
           map_option (\<lambda>q. Won (if cellAt b (fst q) (snd q) = Black then BLACK else WHITE))
             (List.find (startsSix b) ps)"
  using assms
proof (induction ps)
  case Nil
  show ?case by simp
next
  case (Cons p ps)
  then have inside: "isInsideBoard p" and rest: "set ps \<subseteq> set boardCells"
    by (simp_all add: set_boardCells)
  show ?case
  proof (cases "startsSix b p")
    case True
    with startsSix_iff_scanDirs [OF inside, of b] obtain w where
      ne: "cellAt b (fst p) (snd p) \<noteq> Empty"
      and w: "scanDirs b (fst p) (snd p) (cellAt b (fst p) (snd p)) DIRS = Some w" by auto
    from scanDirs_value [OF w] ne w True show ?thesis by simp
  next
    case False
    with startsSix_iff_scanDirs [OF inside, of b]
    have "cellAt b (fst p) (snd p) = Empty \<or>
          scanDirs b (fst p) (snd p) (cellAt b (fst p) (snd p)) DIRS = None" by auto
    with False Cons.IH [OF rest] show ?thesis by auto
  qed
qed

lemma colour_eq_iff:
  "c \<noteq> Empty \<Longrightarrow> (if c = Black then BLACK else WHITE) = p \<longleftrightarrow> c = stoneOf p"
  by (cases c; cases p) (simp_all add: stoneOf_def)

lemma checkWinner_first:
  "checkWinner s = Some (Won p) \<longleftrightarrow>
     (\<exists>q. startsSix (board s) q \<and> cellAt (board s) (fst q) (snd q) = stoneOf p \<and>
          (\<forall>q'. rowMajorBefore q' q \<longrightarrow> \<not> startsSix (board s) q'))"
proof -
  let ?b = "board s"
  have inside: "startsSix ?b q \<Longrightarrow> isInsideBoard q" for q by (simp add: startsSix_def)
  have "checkWinner s = Some (Won p) \<longleftrightarrow> scanCells ?b boardCells = Some (Won p)"
    by (auto simp: checkWinner_def split: option.splits)
  also have "\<dots> \<longleftrightarrow> (\<exists>q. List.find (startsSix ?b) boardCells = Some q \<and>
                        (if cellAt ?b (fst q) (snd q) = Black then BLACK else WHITE) = p)"
    by (auto simp: scanCells_find)
  also have "\<dots> \<longleftrightarrow> (\<exists>q. List.find (startsSix ?b) boardCells = Some q \<and>
                        cellAt ?b (fst q) (snd q) = stoneOf p)"
  proof -
    have "cellAt ?b (fst q) (snd q) \<noteq> Empty" if "List.find (startsSix ?b) boardCells = Some q" for q
      using that by (simp add: find_boardCells startsSix_def)
    then show ?thesis using colour_eq_iff by blast
  qed
  also have "\<dots> \<longleftrightarrow> (\<exists>q. startsSix ?b q \<and> cellAt ?b (fst q) (snd q) = stoneOf p \<and>
          (\<forall>q'. rowMajorBefore q' q \<longrightarrow> \<not> startsSix ?b q'))"
    using inside by (simp add: find_boardCells) blast
  finally show ?thesis .
qed

text \<open>
  C5 (amended). On every well-formed board: if \<^verbatim>\<open>checkWinner\<close> returns a player,
  that player has a straight line of six; it returns some player exactly when some
  colour has such a line; it returns \<open>p\<close> whenever \<open>p\<close> has a line and the other
  colour has none; it returns a draw exactly when no cell is empty and neither colour
  has a line; and it returns \<open>p\<close> exactly when the first cell that starts a six, in the
  order of the rows from the top and from left to right within a row, holds a stone of
  \<open>p\<close>.
\<close>

theorem checkWinner_characterisation:
  assumes "wfBoard (board s)"
  shows "(checkWinner s = Some (Won p) \<longrightarrow> hasSix (board s) (stoneOf p)) \<and>
         (hasSix (board s) (stoneOf p) \<and> \<not> hasSix (board s) (stoneOf (switchPlayer p))
            \<longrightarrow> checkWinner s = Some (Won p)) \<and>
         ((\<exists>q. checkWinner s = Some (Won q)) \<longleftrightarrow>
            hasSix (board s) Black \<or> hasSix (board s) White) \<and>
         (checkWinner s = Some DRAW \<longleftrightarrow>
            boardFull (board s) \<and> \<not> hasSix (board s) Black \<and> \<not> hasSix (board s) White) \<and>
         (checkWinner s = Some (Won p) \<longleftrightarrow>
            (\<exists>q. startsSix (board s) q \<and> cellAt (board s) (fst q) (snd q) = stoneOf p \<and>
                 (\<forall>q'. rowMajorBefore q' q \<longrightarrow> \<not> startsSix (board s) q')))"
proof -
  have lines: "(checkWinner s = Some (Won p) \<longrightarrow> hasSix (board s) (stoneOf p)) \<and>
         (hasSix (board s) (stoneOf p) \<and> \<not> hasSix (board s) (stoneOf (switchPlayer p))
            \<longrightarrow> checkWinner s = Some (Won p)) \<and>
         ((\<exists>q. checkWinner s = Some (Won q)) \<longleftrightarrow>
            hasSix (board s) Black \<or> hasSix (board s) White) \<and>
         (checkWinner s = Some DRAW \<longleftrightarrow>
            boardFull (board s) \<and> \<not> hasSix (board s) Black \<and> \<not> hasSix (board s) White)"
  proof (cases "scanCells (board s) boardCells")
    case None
    then have no: "\<not> hasSix (board s) Black" "\<not> hasSix (board s) White"
      by (simp_all add: scanCells_board_None)
    then have no': "\<not> hasSix (board s) (stoneOf p)"
      using stoneOf_cases [of p] by auto
    from None have "checkWinner s = (if boardFull (board s) then Some DRAW else None)"
      by (simp add: checkWinner_def hasEmpty_iff)
    with no no' show ?thesis by auto
  next
    case (Some w)
    then obtain q where w: "w = Won q" and six: "hasSix (board s) (stoneOf q)"
      using scanCells_board_Some by blast
    from Some w have cw: "checkWinner s = Some (Won q)"
      by (simp add: checkWinner_def)
    have "p \<noteq> q \<Longrightarrow> q = switchPlayer p"
      by (cases p; cases q) (simp_all add: switchPlayer_def)
    with cw six show ?thesis
      using stoneOf_cases [of q] by auto
  qed
  from lines checkWinner_first [of s p] show ?thesis by (intro conjI) (elim conjE, assumption)+
qed

text \<open>
  Witness for C5: six black stones on the top row and no white stone; and a board with a
  white line from \<open>(0,5)\<close> up to \<open>(5,0)\<close> and a black line from \<open>(10,3)\<close> to the right,
  where the first cell that starts a six is \<open>(10,3)\<close>: the white line is found at its
  lower end, in row 5.
\<close>

theorem checkWinner_characterisation_witness:
  "wfBoard (board (createInitialState
      \<lparr>board := placeStones createEmptyBoard Black
          [(0, 0), (1, 0), (2, 0), (3, 0), (4, 0), (5, 0)]\<rparr>)) \<and>
   hasSix (board (createInitialState
      \<lparr>board := placeStones createEmptyBoard Black
          [(0, 0), (1, 0), (2, 0), (3, 0), (4, 0), (5, 0)]\<rparr>)) (stoneOf BLACK) \<and>
   \<not> hasSix (board (createInitialState
      \<lparr>board := placeStones createEmptyBoard Black
          [(0, 0), (1, 0), (2, 0), (3, 0), (4, 0), (5, 0)]\<rparr>)) (stoneOf (switchPlayer BLACK)) \<and>
   checkWinner (createInitialState
      \<lparr>board := placeStones createEmptyBoard Black
          [(0, 0), (1, 0), (2, 0), (3, 0), (4, 0), (5, 0)]\<rparr>) = Some (Won BLACK) \<and>
   wfBoard (board (createInitialState
      \<lparr>board := placeStones (placeStones createEmptyBoard White
              [(5, 0), (4, 1), (3, 2), (2, 3), (1, 4), (0, 5)]) Black
              [(10, 3), (11, 3), (12, 3), (13, 3), (14, 3), (15, 3)]\<rparr>)) \<and>
   sixAt (board (createInitialState
      \<lparr>board := placeStones (placeStones createEmptyBoard White
              [(5, 0), (4, 1), (3, 2), (2, 3), (1, 4), (0, 5)]) Black
              [(10, 3), (11, 3), (12, 3), (13, 3), (14, 3), (15, 3)]\<rparr>)) White (0, 5) DirA \<and>
   List.find (startsSix (board (createInitialState
      \<lparr>board := placeStones (placeStones createEmptyBoard White
              [(5, 0), (4, 1), (3, 2), (2, 3), (1, 4), (0, 5)]) Black
              [(10, 3), (11, 3), (12, 3), (13, 3), (14, 3), (15, 3)]\<rparr>))) boardCells = Some (10, 3) \<and>
   cellAt (board (createInitialState
      \<lparr>board := placeStones (placeStones createEmptyBoard White
              [(5, 0), (4, 1), (3, 2), (2, 3), (1, 4), (0, 5)]) Black
              [(10, 3), (11, 3), (12, 3), (13, 3), (14, 3), (15, 3)]\<rparr>)) 10 3 = stoneOf BLACK \<and>
   checkWinner (createInitialState
      \<lparr>board := placeStones (placeStones createEmptyBoard White
              [(5, 0), (4, 1), (3, 2), (2, 3), (1, 4), (0, 5)]) Black
              [(10, 3), (11, 3), (12, 3), (13, 3), (14, 3), (15, 3)]\<rparr>) = Some (Won BLACK)"
proof -
  let ?s = "createInitialState
      \<lparr>board := placeStones createEmptyBoard Black
          [(0, 0), (1, 0), (2, 0), (3, 0), (4, 0), (5, 0)]\<rparr>"
  let ?t = "createInitialState
      \<lparr>board := placeStones (placeStones createEmptyBoard White
              [(5, 0), (4, 1), (3, 2), (2, 3), (1, 4), (0, 5)]) Black
              [(10, 3), (11, 3), (12, 3), (13, 3), (14, 3), (15, 3)]\<rparr>"
  have w: "wfBoard (board ?s)"
    by code_simp
  have b: "hasSix (board ?s) (stoneOf BLACK)"
    by code_simp
  have n: "\<not> hasSix (board ?s) (stoneOf (switchPlayer BLACK))"
    by code_simp
  from checkWinner_characterisation [OF w, of BLACK] b n
  have one: "checkWinner ?s = Some (Won BLACK)" by blast
  have w2: "wfBoard (board ?t)"
    by code_simp
  have white: "sixAt (board ?t) White (0, 5) DirA"
    by code_simp
  have f: "List.find (startsSix (board ?t)) boardCells = Some (10, 3)"
    by code_simp
  have c: "cellAt (board ?t) 10 3 = stoneOf BLACK"
    by code_simp
  from f have "startsSix (board ?t) (10, 3) \<and>
      (\<forall>q'. rowMajorBefore q' (10, 3) \<longrightarrow> \<not> startsSix (board ?t) q')"
    by (simp only: find_boardCells) (simp add: startsSix_def)
  with c have "\<exists>q. startsSix (board ?t) q \<and> cellAt (board ?t) (fst q) (snd q) = stoneOf BLACK \<and>
      (\<forall>q'. rowMajorBefore q' q \<longrightarrow> \<not> startsSix (board ?t) q')"
    by (intro exI [of _ "(10, 3)"]) simp
  with checkWinner_characterisation [OF w2, of BLACK]
  have two: "checkWinner ?t = Some (Won BLACK)" by blast
  from w b n one w2 white f c two show ?thesis by blast
qed

text \<open>
  Counterexample to C5 as stated. With six black stones on the top row and six white
  stones on the row below, White has a line of six, yet the scan returns Black, whose
  line it meets first: the result is not White although White's line exists.
\<close>

theorem checkWinner_counterexample:
  "hasSix (placeStones (placeStones createEmptyBoard Black
              [(0, 0), (1, 0), (2, 0), (3, 0), (4, 0), (5, 0)]) White
              [(0, 1), (1, 1), (2, 1), (3, 1), (4, 1), (5, 1)]) White \<and>
   checkWinner (createInitialState
      \<lparr>board := placeStones (placeStones createEmptyBoard Black
              [(0, 0), (1, 0), (2, 0), (3, 0), (4, 0), (5, 0)]) White
              [(0, 1), (1, 1), (2, 1), (3, 1), (4, 1), (5, 1)]\<rparr>) = Some (Won BLACK)"
  by code_simp

subsection \<open>Boards built by placing stones\<close>

lemma wfBoard_createEmptyBoard: "wfBoard createEmptyBoard"
  by (simp add: wfBoard_def createEmptyBoard_def list_all_iff)

lemma wfBoard_alt: "wfBoard b \<longleftrightarrow> length b = 19 \<and> (\<forall>i<19. length (b ! i) = 19)"
  by (auto simp: wfBoard_def list_all_length BOARD_SIZE_def)

lemma wfBoard_setCell: "wfBoard b \<Longrightarrow> wfBoard (setCell b x y v)"
  by (cases "nat y < length b") (auto simp: wfBoard_alt setCell_def nth_list_update)

lemma wfBoard_placeStones: "wfBoard b \<Longrightarrow> wfBoard (placeStones b v ps)"
  by (induction ps arbitrary: b) (simp_all add: wfBoard_setCell)

lemma cellAt_createEmptyBoard: "isInsideBoard (x, y) \<Longrightarrow> cellAt createEmptyBoard x y = Empty"
  by (auto simp: cellAt_def createEmptyBoard_def isInsideBoard_def BOARD_SIZE_def)

lemma cellAt_setCell:
  assumes "wfBoard b" and "isInsideBoard (x, y)" and "isInsideBoard (x', y')"
  shows "cellAt (setCell b x y v) x' y' = (if x = x' \<and> y = y' then v else cellAt b x' y')"
proof -
  from assms have y: "nat y < length b" and y': "nat y' < length b"
    by (simp_all add: wfBoard_def isInsideBoard_def)
  with assms have x: "nat x < length (b ! nat y)" and x': "nat x' < length (b ! nat y')"
    by (simp_all add: wfBoard_def isInsideBoard_def list_all_length)
  from assms have eq: "nat x = nat x' \<longleftrightarrow> x = x'" "nat y = nat y' \<longleftrightarrow> y = y'"
    by (auto simp: isInsideBoard_def)
  show ?thesis
    using y y' x x' eq by (auto simp: cellAt_def setCell_def nth_list_update)
qed

lemma cellAt_placeStones:
  assumes "wfBoard b" and "list_all isInsideBoard ps" and "isInsideBoard q"
  shows "cellAt (placeStones b v ps) (fst q) (snd q) =
           (if q \<in> set ps then v else cellAt b (fst q) (snd q))"
  using assms
proof (induction ps arbitrary: b)
  case Nil
  then show ?case by simp
next
  case (Cons p ps)
  then have wf': "wfBoard (setCell b (fst p) (snd p) v)" by (simp add: wfBoard_setCell)
  from Cons.prems have ins: "isInsideBoard (fst p, snd p)" "list_all isInsideBoard ps" by simp_all
  from Cons.prems have q: "isInsideBoard (fst q, snd q)" by simp
  have "cellAt (placeStones b v (p # ps)) (fst q) (snd q) =
        (if q \<in> set ps then v else cellAt (setCell b (fst p) (snd p) v) (fst q) (snd q))"
    using Cons.IH [OF wf' ins(2) Cons.prems(3)] by simp
  also have "\<dots> = (if q \<in> set (p # ps) then v else cellAt b (fst q) (snd q))"
    using cellAt_setCell [OF Cons.prems(1) ins(1) q, of v] by (auto simp: prod_eq_iff)
  finally show ?case .
qed

subsection \<open>The road table\<close>

lemma map_cells_ALL_ROADS: "map cells ALL_ROADS = roadCellLists"
proof -
  have "map cells ALL_ROADS = map snd (enumerate 0 roadCellLists)"
    by (simp add: ALL_ROADS_def precomputeRoads_def case_prod_unfold comp_def)
  then show ?thesis by (simp add: map_snd_enumerate)
qed

lemma roadCellLists_length: "cs \<in> set roadCellLists \<Longrightarrow> length cs = 6"
  by (auto simp: roadCellLists_def Let_def split: if_splits)

lemma road_length: "r \<in> set ALL_ROADS \<Longrightarrow> length (cells r) = 6"
proof -
  assume "r \<in> set ALL_ROADS"
  then have "cells r \<in> set (map cells ALL_ROADS)" by simp
  then show ?thesis by (simp only: map_cells_ALL_ROADS roadCellLists_length)
qed

lemma collectCells_eq:
  "collectCells d x y ks acc =
     (if \<forall>k\<in>set ks. isInsideBoard (x + dirDx d * k, y + dirDy d * k)
      then acc @ map (\<lambda>k. (x + dirDx d * k, y + dirDy d * k)) ks else [])"
  by (induction ks arbitrary: acc) (auto simp: Let_def isInsideBoard_def)

lemma collectCells_inside:
  assumes "\<forall>k\<in>set ks. isInsideBoard (x + dirDx d * k, y + dirDy d * k)"
  shows "collectCells d x y ks [] = map (\<lambda>k. (x + dirDx d * k, y + dirDy d * k)) ks"
  using assms by (simp add: collectCells_eq)

lemma collectCells_outside:
  assumes "\<not> (\<forall>k\<in>set ks. isInsideBoard (x + dirDx d * k, y + dirDy d * k))"
  shows "collectCells d x y ks [] = []"
  using assms by (auto simp: collectCells_eq)

lemma roadsAt_set:
  "set (let cs = collectCells d x y ks [] in if length cs = 6 then [cs] else []) =
      (if length ks = 6 \<and> (\<forall>k\<in>set ks. isInsideBoard (x + dirDx d * k, y + dirDy d * k))
         then {map (\<lambda>k. (x + dirDx d * k, y + dirDy d * k)) ks} else {})"
proof (cases "\<forall>k\<in>set ks. isInsideBoard (x + dirDx d * k, y + dirDy d * k)")
  case True
  then show ?thesis by (simp add: collectCells_inside Let_def)
next
  case False
  then show ?thesis by (simp add: collectCells_outside Let_def)
qed

lemma len05: "length [0..5::int] = 6"
  by simp

lemma set_roadCellLists:
  "set roadCellLists =
     (\<Union>d\<in>set DIRS. \<Union>y\<in>{0..BOARD_SIZE - 1}. \<Union>x\<in>{0..BOARD_SIZE - 1}.
        (if length [0..5::int] = 6 \<and> (\<forall>k\<in>set [0..5]. isInsideBoard (x + dirDx d * k, y + dirDy d * k))
         then {map (\<lambda>k. (x + dirDx d * k, y + dirDy d * k)) [0..5]} else {}))"
  unfolding roadCellLists_def set_concat set_map image_image roadsAt_set set_upto ..


lemma road_cells_mem:
  assumes "d \<in> set DIRS" and "isInsideBoard (x, y)"
    and "\<forall>k\<in>set [0..5]. isInsideBoard (x + dirDx d * k, y + dirDy d * k)"
  shows "map (\<lambda>k. (x + dirDx d * k, y + dirDy d * k)) [0..5] \<in> set roadCellLists"
proof -
  from assms(2) have x: "x \<in> {0..BOARD_SIZE - 1}" and y: "y \<in> {0..BOARD_SIZE - 1}"
    by (auto simp: isInsideBoard_def)
  have cond: "length [0..5::int] = 6 \<and>
      (\<forall>k\<in>set [0..5]. isInsideBoard (x + dirDx d * k, y + dirDy d * k))"
    using len05 assms(3) by (rule conjI)
  show ?thesis
    unfolding set_roadCellLists
  proof (rule UN_I [OF assms(1)], rule UN_I [OF y], rule UN_I [OF x])
    show "map (\<lambda>k. (x + dirDx d * k, y + dirDy d * k)) [0..5]
      \<in> (if length [0..5::int] = 6 \<and>
             (\<forall>k\<in>set [0..5]. isInsideBoard (x + dirDx d * k, y + dirDy d * k))
          then {map (\<lambda>k. (x + dirDx d * k, y + dirDy d * k)) [0..5]} else {})"
      unfolding if_P [OF cond] by (rule singletonI)
  qed
qed

lemma road_cells_form:
  assumes "cs \<in> set roadCellLists"
  shows "\<exists>d x y. cs = map (\<lambda>k. (x + dirDx d * k, y + dirDy d * k)) [0..5] \<and>
           (\<forall>k\<in>set [0..5]. isInsideBoard (x + dirDx d * k, y + dirDy d * k))"
proof -
  from assms obtain d y x where
    m: "cs \<in> (if length [0..5::int] = 6 \<and>
             (\<forall>k\<in>set [0..5]. isInsideBoard (x + dirDx d * k, y + dirDy d * k))
          then {map (\<lambda>k. (x + dirDx d * k, y + dirDy d * k)) [0..5]} else {})"
    unfolding set_roadCellLists by (elim UN_E)
  show ?thesis
  proof (cases "length [0..5::int] = 6 \<and>
             (\<forall>k\<in>set [0..5]. isInsideBoard (x + dirDx d * k, y + dirDy d * k))")
    case True
    from m have "cs = map (\<lambda>k. (x + dirDx d * k, y + dirDy d * k)) [0..5]"
      unfolding if_P [OF True] by (rule singletonD)
    with True show ?thesis by (intro exI conjI) (assumption, rule conjunct2)
  next
    case False
    from m show ?thesis unfolding if_not_P [OF False] by (rule emptyE)
  qed
qed

lemma road_cells_inside:
  assumes "r \<in> set ALL_ROADS"
  shows "list_all isInsideBoard (cells r)"
proof -
  from assms have "cells r \<in> set (map cells ALL_ROADS)" by simp
  then have "cells r \<in> set roadCellLists" by (simp only: map_cells_ALL_ROADS)
  from road_cells_form [OF this] obtain d x y where
    c: "cells r = map (\<lambda>k. (x + dirDx d * k, y + dirDy d * k)) [0..5]"
    and i: "\<forall>k\<in>set [0..5]. isInsideBoard (x + dirDx d * k, y + dirDy d * k)" by (elim exE conjE)
  show ?thesis unfolding c list_all_iff set_map
  proof
    fix p assume "p \<in> (\<lambda>k. (x + dirDx d * k, y + dirDy d * k)) ` set [0..5]"
    then obtain k where "k \<in> set [0..5]" and "p = (x + dirDx d * k, y + dirDy d * k)"
      by (rule imageE)
    with i show "isInsideBoard p" by (simp only:)
  qed
qed

lemma road_mem:
  assumes "d \<in> set DIRS" and "isInsideBoard (x, y)"
    and "\<forall>k\<in>set [0..5]. isInsideBoard (x + dirDx d * k, y + dirDy d * k)"
  shows "\<exists>r\<in>set ALL_ROADS. cells r = map (\<lambda>k. (x + dirDx d * k, y + dirDy d * k)) [0..5]"
proof -
  from road_cells_mem [OF assms] have
    "map (\<lambda>k. (x + dirDx d * k, y + dirDy d * k)) [0..5] \<in> set (map cells ALL_ROADS)"
    by (simp only: map_cells_ALL_ROADS)
  then obtain r where "r \<in> set ALL_ROADS"
    and "map (\<lambda>k. (x + dirDx d * k, y + dirDy d * k)) [0..5] = cells r"
    unfolding set_map by (rule imageE)
  then show ?thesis by (intro bexI [of _ r]) (rule sym)
qed

subsection \<open>The road term of the evaluator\<close>

lemma bit_cellBits: "bit (cellBits c) n \<longleftrightarrow> (c = Black \<and> n = 0) \<or> (c = White \<and> n = 1)"
  by (cases c) (auto simp: cellBits_def bit_simps bit_numeral_simps bit_1_iff bit_2_iff ) 


lemma bit_encodeLoop:
  assumes "i + length ps \<le> 16"
  shows "bit (encodeLoop b ps i code) n \<longleftrightarrow>
     bit code n \<or>
     (\<exists>j<length ps. n < 32 \<and> 2 * (i + j) \<le> n \<and>
         bit (cellBits (cellAt b (fst (ps ! j)) (snd (ps ! j)))) (n - 2 * (i + j)))"
  using assms
proof (induction ps arbitrary: i code)
  case Nil
  then show ?case by simp
next
  case (Cons p ps)
  let ?Q = "\<lambda>i j. n < 32 \<and> 2 * (i + j) \<le> n \<and>
         bit (cellBits (cellAt b (fst ((p # ps) ! j)) (snd ((p # ps) ! j)))) (n - 2 * (i + j))"
  from Cons.prems have i: "(i * 2) mod 32 = i * 2" by simp
  from Cons.prems have "Suc i + length ps \<le> 16" by simp
  from Cons.IH [OF this]
  have "bit (encodeLoop b (p # ps) i code) n \<longleftrightarrow>
      bit (code OR push_bit (i * 2) (cellBits (cellAt b (fst p) (snd p)))) n \<or>
      (\<exists>j<length ps. ?Q i (Suc j))"
    by (simp add: i)
  also have "\<dots> \<longleftrightarrow> bit code n \<or> ?Q i 0 \<or> (\<exists>j<length ps. ?Q i (Suc j))"
    by (auto simp: bit_or_iff bit_push_bit_iff mult.commute dest: bit_imp_le_length)
  also have "\<dots> \<longleftrightarrow> bit code n \<or> (\<exists>j<length (p # ps). ?Q i j)"
    by (auto simp: less_Suc_eq_0_disj)
  finally show ?case .
qed

lemma encodeLoop_digit:
  assumes "length cs = 6" and "k < 6"
  shows "signed_drop_bit (k * 2) (encodeLoop b cs 0 0) AND 3 =
         cellBits (cellAt b (fst (cs ! k)) (snd (cs ! k)))"
proof (rule bit_word_eqI)
  fix n :: nat
  assume n: "n < LENGTH(32)"
  have three: "bit (3 :: 32 word) n \<longleftrightarrow> n < 2"
    by (cases n) (auto simp: bit_numeral_simps bit_Suc numeral_3_eq_3 less_Suc_eq_0_disj bit_1_iff dest: bit_imp_le_length)
  show "bit (signed_drop_bit (k * 2) (encodeLoop b cs 0 0) AND 3) n =
        bit (cellBits (cellAt b (fst (cs ! k)) (snd (cs ! k)))) n"
  proof (cases "n < 2")
    case False
    then have "\<not> bit (3 :: 32 word) n" by (simp only: three not_False_eq_True)
    moreover from False have "\<not> bit (cellBits (cellAt b (fst (cs ! k)) (snd (cs ! k)))) n"
      by (auto simp: bit_cellBits)
    ultimately show ?thesis by (simp add: bit_and_iff)
  next
    case True
    with assms have idx: "\<not> (LENGTH(32) - k * 2 \<le> n \<and> n < LENGTH(32))" by simp
    have "bit (signed_drop_bit (k * 2) (encodeLoop b cs 0 0) AND 3) n \<longleftrightarrow>
          bit (encodeLoop b cs 0 0) (k * 2 + n)"
    proof -
      from True have t: "bit (3 :: 32 word) n" using three by blast
      from idx have "bit (signed_drop_bit (k * 2) (encodeLoop b cs 0 0)) n \<longleftrightarrow>
          bit (encodeLoop b cs 0 0) (k * 2 + n)"
        by (simp only: bit_signed_drop_bit_iff if_False)
      with t show ?thesis by (simp only: bit_and_iff simp_thms)
    qed
    also have "\<dots> \<longleftrightarrow> (\<exists>j<6. 2 * j \<le> k * 2 + n \<and>
         bit (cellBits (cellAt b (fst (cs ! j)) (snd (cs ! j)))) (k * 2 + n - 2 * j))"
      using assms True by (subst bit_encodeLoop) auto
    also have "\<dots> \<longleftrightarrow> bit (cellBits (cellAt b (fst (cs ! k)) (snd (cs ! k)))) n"
    proof
      assume "\<exists>j<6. 2 * j \<le> k * 2 + n \<and>
         bit (cellBits (cellAt b (fst (cs ! j)) (snd (cs ! j)))) (k * 2 + n - 2 * j)"
      then obtain j where j: "j < 6" "2 * j \<le> k * 2 + n"
        "bit (cellBits (cellAt b (fst (cs ! j)) (snd (cs ! j)))) (k * 2 + n - 2 * j)" by blast
      then have "k * 2 + n - 2 * j < 2" by (auto simp: bit_cellBits)
      with j True have "j = k" by arith
      with j show "bit (cellBits (cellAt b (fst (cs ! k)) (snd (cs ! k)))) n" by simp
    next
      assume "bit (cellBits (cellAt b (fst (cs ! k)) (snd (cs ! k)))) n"
      with assms show "\<exists>j<6. 2 * j \<le> k * 2 + n \<and>
         bit (cellBits (cellAt b (fst (cs ! j)) (snd (cs ! j)))) (k * 2 + n - 2 * j)"
        by (intro exI [of _ k]) simp
    qed
    finally show ?thesis .
  qed
qed


lemma countMaxRunLoop_my:
  assumes "myCur \<le> myMax" and "myMax \<le> k" and "(myMax = k) = P" and "(myCur = k) = P"
  shows "fst (snd (snd (countMaxRunLoop code mb ob js (myMax, oppMax, myCur, oppCur))))
           \<le> fst (countMaxRunLoop code mb ob js (myMax, oppMax, myCur, oppCur)) \<and>
         fst (countMaxRunLoop code mb ob js (myMax, oppMax, myCur, oppCur)) \<le> k + length js \<and>
         (fst (countMaxRunLoop code mb ob js (myMax, oppMax, myCur, oppCur)) = k + length js) =
           (P \<and> (\<forall>i\<in>set js. signed_drop_bit (i * 2) code AND 3 = mb)) \<and>
         (fst (snd (snd (countMaxRunLoop code mb ob js (myMax, oppMax, myCur, oppCur)))) = k + length js) =
           (P \<and> (\<forall>i\<in>set js. signed_drop_bit (i * 2) code AND 3 = mb))"
  using assms
proof (induction js arbitrary: myMax oppMax myCur oppCur k P)
  case Nil
  then show ?case by simp
next
  case (Cons i js)
  let ?bits = "signed_drop_bit (i * 2) code AND 3"
  let ?myCur = "if ?bits = mb then myCur + 1 else 0"
  let ?oppCur = "if ?bits = mb then 0 else if ?bits = ob then oppCur + 1 else 0"
  let ?myMax = "if ?myCur > myMax then ?myCur else myMax"
  let ?oppMax = "if ?oppCur > oppMax then ?oppCur else oppMax"
  have step: "countMaxRunLoop code mb ob (i # js) (myMax, oppMax, myCur, oppCur) =
        countMaxRunLoop code mb ob js (?myMax, ?oppMax, ?myCur, ?oppCur)"
    by (simp add: Let_def)
  have a: "?myCur \<le> ?myMax" by simp
  have b: "?myMax \<le> Suc k" using Cons.prems by auto
  have c: "(?myMax = Suc k) = (P \<and> ?bits = mb)" using Cons.prems by auto
  have d: "(?myCur = Suc k) = (P \<and> ?bits = mb)" using Cons.prems by auto
  from Cons.IH [OF a b c d, of ?oppMax] show ?case
    unfolding step by (simp add: conj_ac)
qed

lemma countMaxRunLoop_opp:
  assumes "mb \<noteq> ob"
    and "oppCur \<le> oppMax" and "oppMax \<le> k" and "(oppMax = k) = P" and "(oppCur = k) = P"
  shows "snd (snd (snd (countMaxRunLoop code mb ob js (myMax, oppMax, myCur, oppCur))))
           \<le> fst (snd (countMaxRunLoop code mb ob js (myMax, oppMax, myCur, oppCur))) \<and>
         fst (snd (countMaxRunLoop code mb ob js (myMax, oppMax, myCur, oppCur))) \<le> k + length js \<and>
         (fst (snd (countMaxRunLoop code mb ob js (myMax, oppMax, myCur, oppCur))) = k + length js) =
           (P \<and> (\<forall>i\<in>set js. signed_drop_bit (i * 2) code AND 3 = ob)) \<and>
         (snd (snd (snd (countMaxRunLoop code mb ob js (myMax, oppMax, myCur, oppCur)))) = k + length js) =
           (P \<and> (\<forall>i\<in>set js. signed_drop_bit (i * 2) code AND 3 = ob))"
  using assms(2-)
proof (induction js arbitrary: myMax oppMax myCur oppCur k P)
  case Nil
  then show ?case by simp
next
  case (Cons i js)
  let ?bits = "signed_drop_bit (i * 2) code AND 3"
  let ?myCur = "if ?bits = mb then myCur + 1 else 0"
  let ?oppCur = "if ?bits = mb then 0 else if ?bits = ob then oppCur + 1 else 0"
  let ?myMax = "if ?myCur > myMax then ?myCur else myMax"
  let ?oppMax = "if ?oppCur > oppMax then ?oppCur else oppMax"
  have step: "countMaxRunLoop code mb ob (i # js) (myMax, oppMax, myCur, oppCur) =
        countMaxRunLoop code mb ob js (?myMax, ?oppMax, ?myCur, ?oppCur)"
    by (simp add: Let_def)
  have a: "?oppCur \<le> ?oppMax" by simp
  have b: "?oppMax \<le> Suc k" using Cons.prems by auto
  have c: "(?oppMax = Suc k) = (P \<and> ?bits = ob)" using Cons.prems \<open>mb \<noteq> ob\<close> by auto
  have d: "(?oppCur = Suc k) = (P \<and> ?bits = ob)" using Cons.prems \<open>mb \<noteq> ob\<close> by auto
  from Cons.IH [OF a b c d, of ?myMax ?myCur] show ?case
    unfolding step by (simp add: conj_ac)
qed

lemma cellBits_eq_iff:
  "cellBits c = 1 \<longleftrightarrow> c = Black" "cellBits c = 2 \<longleftrightarrow> c = White"
  by (cases c; simp add: cellBits_def)+

lemma all_less_6_nth: "length cs = 6 \<Longrightarrow> (\<forall>i<6. P (cs ! i)) \<longleftrightarrow> list_all P cs"
  by (auto simp: list_all_length)

lemma countMaxRun_encodeRoad:
  assumes "length (cells r) = 6"
  shows "(6 \<le> fst (countMaxRun (encodeRoad state r) p)) = roadFilledWith (board state) (stoneOf p) r"
    and "(6 \<le> snd (countMaxRun (encodeRoad state r) p)) =
           roadFilledWith (board state) (stoneOf (switchPlayer p)) r"
proof -
  let ?code = "encodeRoad state r"
  let ?mb = "if p = BLACK then 1 else 2 :: 32 word"
  let ?ob = "if p = BLACK then 2 else 1 :: 32 word"
  let ?st = "countMaxRunLoop ?code ?mb ?ob [0..<6] (0, 0, 0, 0)"
  have digit: "\<And>i. i < 6 \<Longrightarrow> signed_drop_bit (i * 2) ?code AND 3 =
      cellBits (cellAt (board state) (fst (cells r ! i)) (snd (cells r ! i)))"
    using assms by (simp add: encodeRoad_def encodeLoop_digit)
  have neq: "?mb \<noteq> ?ob" by simp
  have my: "fst ?st \<le> 6 \<and> (fst ?st = 6) = (\<forall>i\<in>set [0..<6]. signed_drop_bit (i * 2) ?code AND 3 = ?mb)"
    using countMaxRunLoop_my [of 0 0 0 True ?code ?mb ?ob "[0..<6]" 0] by simp
  have opp: "fst (snd ?st) \<le> 6 \<and>
      (fst (snd ?st) = 6) = (\<forall>i\<in>set [0..<6]. signed_drop_bit (i * 2) ?code AND 3 = ?ob)"
    using countMaxRunLoop_opp [OF neq, of 0 0 0 True ?code "[0..<6]" 0 0] by simp
  have "(6 \<le> fst ?st) = (\<forall>i<6. cellBits (cellAt (board state) (fst (cells r ! i)) (snd (cells r ! i))) = ?mb)"
    using my digit by auto
  also have "\<dots> = (\<forall>i<6. cellAt (board state) (fst (cells r ! i)) (snd (cells r ! i)) = stoneOf p)"
    by (simp add: cellBits_eq_iff stoneOf_def)
  also have "\<dots> = roadFilledWith (board state) (stoneOf p) r"
    unfolding roadFilledWith_def
    using all_less_6_nth [OF assms, of "\<lambda>q. cellAt (board state) (fst q) (snd q) = stoneOf p"] .
  finally show "(6 \<le> fst (countMaxRun ?code p)) = roadFilledWith (board state) (stoneOf p) r"
    by (simp add: countMaxRun_def Let_def)
  have "(6 \<le> fst (snd ?st)) = (\<forall>i<6. cellBits (cellAt (board state) (fst (cells r ! i)) (snd (cells r ! i))) = ?ob)"
    using opp digit by auto
  also have "\<dots> = (\<forall>i<6. cellAt (board state) (fst (cells r ! i)) (snd (cells r ! i)) = stoneOf (switchPlayer p))"
    by (simp add: cellBits_eq_iff stoneOf_def switchPlayer_def)
  also have "\<dots> = roadFilledWith (board state) (stoneOf (switchPlayer p)) r"
    unfolding roadFilledWith_def
    using all_less_6_nth [OF assms, of "\<lambda>q. cellAt (board state) (fst q) (snd q) = stoneOf (switchPlayer p)"] .
  finally show "(6 \<le> snd (countMaxRun ?code p)) = roadFilledWith (board state) (stoneOf (switchPlayer p)) r"
    by (simp add: countMaxRun_def Let_def)
qed

lemma evaluateRoadsLoop_char:
  assumes "\<forall>r\<in>set rs. length (cells r) = 6"
  shows "evaluateRoadsLoop state p rs score =
     (if \<exists>r\<in>set rs. roadFilledWith (board state) (stoneOf p) r then 1000000
      else score - 1000000 * real (length (filter (roadFilledWith (board state) (stoneOf (switchPlayer p))) rs)))"
  using assms
proof (induction rs arbitrary: score)
  case Nil
  then show ?case by simp
next
  case (Cons r rs)
  then have len: "length (cells r) = 6" and rest: "\<forall>r\<in>set rs. length (cells r) = 6" by simp_all
  show ?case
    by (simp add: Let_def countMaxRun_encodeRoad [OF len] Cons.IH [OF rest] algebra_simps)
qed

lemma evaluateRoads_eq:
  "evaluateRoads state q w =
     (if 0 < filledRoads (board state) (stoneOf q) then 1000000
      else - (1000000 * real (filledRoads (board state) (stoneOf (switchPlayer q)))))"
  unfolding evaluateRoads_def getAllRoads_def
  by (subst evaluateRoadsLoop_char) (simp_all add: road_length filledRoads_def filter_empty_conv)

lemma filledRoads_zero:
  assumes "\<And>q. isInsideBoard q \<Longrightarrow> cellAt b (fst q) (snd q) \<noteq> c"
  shows "filledRoads b c = 0"
proof -
  have "\<not> roadFilledWith b c r" if r: "r \<in> set ALL_ROADS" for r
  proof -
    from road_length [OF r] obtain q qs where q: "cells r = q # qs"
      by (cases "cells r") auto
    with road_cells_inside [OF r] have "isInsideBoard q" by simp
    from assms [OF this] q show ?thesis by (simp add: roadFilledWith_def)
  qed
  then show ?thesis by (simp add: filledRoads_def filter_empty_conv)
qed

lemma filter_two:
  assumes "r1 \<in> set xs" and "r2 \<in> set xs" and "r1 \<noteq> r2" and "P r1" and "P r2"
  shows "2 \<le> length (filter P xs)"
proof -
  from assms have "{r1, r2} \<subseteq> set (filter P xs)" by simp
  then have "card {r1, r2} \<le> card (set (filter P xs))" by (intro card_mono) simp_all
  also have "\<dots> \<le> length (filter P xs)" by (rule card_length)
  finally show ?thesis using assms(3) by simp
qed

lemma upto_0_5: "[0..5::int] = [0, 1, 2, 3, 4, 5]"
  by (simp add: upto_rec1)

lemma cellAt_placeStones_empty:
  assumes "list_all isInsideBoard ps" and "isInsideBoard (x, y)"
  shows "cellAt (placeStones createEmptyBoard v ps) x y = (if (x, y) \<in> set ps then v else Empty)"
  using cellAt_placeStones [OF wfBoard_createEmptyBoard assms(1), of "(x, y)" v] assms(2)
  by (simp add: cellAt_createEmptyBoard)

text \<open>
  C2 (amended). For every well-formed state and every weight vector,
  \<^verbatim>\<open>evaluateRoads\<close> for a player is +1,000,000 as soon as some road is filled with
  six of that player's stones, and otherwise minus 1,000,000 for every road filled with
  six of the opponent's stones. Hence the road term is anti-symmetric under swapping
  colours, \<open>evaluateRoads(s, Black, w) = - evaluateRoads(s, White, w)\<close>, exactly on the
  states in which at most one road in all is filled with six stones of one colour.
\<close>

theorem evaluateRoads_antisymmetry_iff:
  assumes "wfBoard (board state)"
  shows "evaluateRoads state p w =
           (if 0 < filledRoads (board state) (stoneOf p) then 1000000
            else - (1000000 * real (filledRoads (board state) (stoneOf (switchPlayer p))))) \<and>
         ((evaluateRoads state BLACK w = - evaluateRoads state WHITE w) =
            (filledRoads (board state) Black + filledRoads (board state) White \<le> 1))"
proof -
  have "(evaluateRoads state BLACK w = - evaluateRoads state WHITE w) =
            (filledRoads (board state) Black + filledRoads (board state) White \<le> 1)"
    by (cases "filledRoads (board state) Black"; cases "filledRoads (board state) White")
       (auto simp: evaluateRoads_eq stoneOf_def switchPlayer_def)
  with evaluateRoads_eq [of state p w] show ?thesis by blast
qed

text \<open>
  Witness for C2: on the empty board no road is filled, and the two values are opposite.
\<close>

theorem evaluateRoads_antisymmetry_iff_witness:
  "wfBoard (board createInitialState) \<and>
   evaluateRoads createInitialState BLACK
     \<lparr>road_3_score = 100, road_4_score = 350, live4_score = 3000, live5_score = 10000,
      vcdt_bonus = 1500\<rparr> =
   - evaluateRoads createInitialState WHITE
     \<lparr>road_3_score = 100, road_4_score = 350, live4_score = 3000, live5_score = 10000,
      vcdt_bonus = 1500\<rparr>"
proof -
  have wf: "wfBoard (board createInitialState)"
    by (simp add: createInitialState_def wfBoard_createEmptyBoard)
  have "filledRoads (board createInitialState) c = 0" if "c \<noteq> Empty" for c
  proof (rule filledRoads_zero)
    fix q :: position
    assume "isInsideBoard q"
    then have "isInsideBoard (fst q, snd q)" by simp
    with that show "cellAt (board createInitialState) (fst q) (snd q) \<noteq> c"
      by (simp add: createInitialState_def cellAt_createEmptyBoard)
  qed
  then have "filledRoads (board createInitialState) Black +
      filledRoads (board createInitialState) White \<le> 1" by simp
  with evaluateRoads_antisymmetry_iff [OF wf] wf show ?thesis by blast
qed

text \<open>
  Counterexample to C2 as stated. Seven black stones in a row on the top line fill two
  roads. For Black the loop returns +1,000,000 at the first of them; for White it
  subtracts 1,000,000 for each, so White's value is at most -2,000,000 and the two values
  are not opposite.
\<close>

theorem evaluateRoads_counterexample:
  "evaluateRoads
     (createInitialState\<lparr>board := placeStones createEmptyBoard Black
        [(0, 0), (1, 0), (2, 0), (3, 0), (4, 0), (5, 0), (6, 0)]\<rparr>) BLACK
     \<lparr>road_3_score = 100, road_4_score = 350, live4_score = 3000, live5_score = 10000,
      vcdt_bonus = 1500\<rparr> = 1000000 \<and>
   evaluateRoads
     (createInitialState\<lparr>board := placeStones createEmptyBoard Black
        [(0, 0), (1, 0), (2, 0), (3, 0), (4, 0), (5, 0), (6, 0)]\<rparr>) WHITE
     \<lparr>road_3_score = 100, road_4_score = 350, live4_score = 3000, live5_score = 10000,
      vcdt_bonus = 1500\<rparr> \<le> - 2000000"
proof -
  let ?ps = "[(0, 0), (1, 0), (2, 0), (3, 0), (4, 0), (5, 0), (6, 0)] :: position list"
  let ?b = "placeStones createEmptyBoard Black ?ps"
  let ?s = "createInitialState\<lparr>board := ?b\<rparr>"
  have dH: "DirH \<in> set DIRS" by (simp add: DIRS_def)
  obtain r1 where r1: "r1 \<in> set ALL_ROADS"
    and c1: "cells r1 = map (\<lambda>k. (0 + dirDx DirH * k, 0 + dirDy DirH * k)) [0..5]"
    using road_mem [OF dH, of 0 0] by (auto simp: isInsideBoard_def BOARD_SIZE_def)
  obtain r2 where r2: "r2 \<in> set ALL_ROADS"
    and c2: "cells r2 = map (\<lambda>k. (1 + dirDx DirH * k, 0 + dirDy DirH * k)) [0..5]"
    using road_mem [OF dH, of 1 0] by (auto simp: isInsideBoard_def BOARD_SIZE_def)
  have f1: "roadFilledWith ?b Black r1"
    unfolding roadFilledWith_def c1
    by (simp add: upto_0_5 cellAt_placeStones_empty isInsideBoard_def BOARD_SIZE_def
          del: placeStones.simps)
  have f2: "roadFilledWith ?b Black r2"
    unfolding roadFilledWith_def c2
    by (simp add: upto_0_5 cellAt_placeStones_empty isInsideBoard_def BOARD_SIZE_def
          del: placeStones.simps)
  from c1 c2 have ne: "r1 \<noteq> r2" by (auto simp: upto_0_5)
  have two: "2 \<le> filledRoads ?b Black"
    unfolding filledRoads_def using r1 r2 ne f1 f2 by (rule filter_two)
  have zero: "filledRoads ?b White = 0"
  proof (rule filledRoads_zero)
    fix q :: position
    assume "isInsideBoard q"
    then have "isInsideBoard (fst q, snd q)" by simp
    then show "cellAt ?b (fst q) (snd q) \<noteq> White"
      by (subst cellAt_placeStones_empty) (simp_all add: isInsideBoard_def BOARD_SIZE_def)
  qed
  from two have "0 < filledRoads ?b Black" by simp
  then have black: "evaluateRoads ?s BLACK w = 1000000" for w
    using evaluateRoads_eq [of ?s BLACK w] by (simp add: stoneOf_def)
  have "evaluateRoads ?s WHITE w = - (1000000 * real (filledRoads ?b Black))" for w
    using evaluateRoads_eq [of ?s WHITE w] zero by (simp add: stoneOf_def switchPlayer_def)
  moreover from two have "2 \<le> real (filledRoads ?b Black)" by simp
  ultimately have white: "evaluateRoads ?s WHITE w \<le> - 2000000" for w
    by simp
  from black white show ?thesis by blast
qed

subsection \<open>Urgent blocks among the candidates\<close>

lemma set_addUnique: "set (addUnique e acc) = insert e (set acc)"
  by (auto simp: addUnique_def)

lemma set_foldl_addUnique: "set (foldl (\<lambda>res e. addUnique e res) r es) = set r \<union> set es"
  by (induction es arbitrary: r) (auto simp: set_addUnique)

lemma set_foldl_union:
  assumes "\<And>r x. set (f r x) = set r \<union> S x"
  shows "set (foldl f r0 xs) = set r0 \<union> (\<Union>x\<in>set xs. S x)"
  by (induction xs arbitrary: r0) (auto simp: assms)

lemma set_urgentStep:
  "set (urgentStep b myVal oppVal d y x r) = set r \<union> set (urgentStep b myVal oppVal d y x [])"
  by (auto simp: urgentStep_def Let_def set_foldl_addUnique simp del: upto.simps)

lemma set_findUrgentThreatBlocks:
  "set (findUrgentThreatBlocks state) =
     (\<Union>d\<in>set DIRS. \<Union>y\<in>{0..BOARD_SIZE - 1}. \<Union>x\<in>{0..BOARD_SIZE - 1}.
        set (urgentStep (board state) (if currentPlayer state = BLACK then Black else White)
               (if (if currentPlayer state = BLACK then Black else White) = Black then White else Black)
               d y x []))"
proof -
  let ?my = "if currentPlayer state = BLACK then Black else White"
  let ?opp = "if ?my = Black then White else Black"
  let ?U = "\<lambda>d y x. set (urgentStep (board state) ?my ?opp d y x [])"
  have x: "set (foldl (\<lambda>res x. urgentStep (board state) ?my ?opp d y x res) r xs) =
      set r \<union> (\<Union>x\<in>set xs. ?U d y x)" for d y r xs
    by (rule set_foldl_union) (rule set_urgentStep)
  have y: "set (foldl (\<lambda>res y. foldl (\<lambda>res x. urgentStep (board state) ?my ?opp d y x res) res xs) r ys) =
      set r \<union> (\<Union>y\<in>set ys. \<Union>x\<in>set xs. ?U d y x)" for d r xs ys
    by (rule set_foldl_union) (rule x)
  have d: "set (foldl (\<lambda>res d. foldl (\<lambda>res y. foldl (\<lambda>res x.
        urgentStep (board state) ?my ?opp d y x res) res xs) res ys) r ds) =
      set r \<union> (\<Union>d\<in>set ds. \<Union>y\<in>set ys. \<Union>x\<in>set xs. ?U d y x)" for r xs ys ds
    by (rule set_foldl_union) (rule y)
  show ?thesis
    unfolding findUrgentThreatBlocks_def Let_def d by (simp del: upto.simps)
qed


lemma boardCells_range: "(x, y) \<in> set boardCells \<longleftrightarrow> x \<in> {0..BOARD_SIZE - 1} \<and> y \<in> {0..BOARD_SIZE - 1}"
  by (auto simp: set_boardCells isInsideBoard_def)

lemma urgentBlockCell_found:
  assumes "urgentBlockCell state p"
  shows "p \<in> set (findUrgentThreatBlocks state)"
proof -
  let ?b = "board state"
  let ?my = "if currentPlayer state = BLACK then Black else White"
  let ?opp = "if ?my = Black then White else Black"
  from assms obtain d start where d: "d \<in> set DIRS" and st: "start \<in> set boardCells"
    and win: "urgentWindow state d start"
    and p: "p \<in> set (emptyCells ?b (windowCells d start))"
    by (auto simp: urgentBlockCell_def list_ex_iff)
  obtain x y where start: "start = (x, y)" by (cases start)
  let ?cs = "map (\<lambda>k. (x + dirDx d * k, y + dirDy d * k)) [0..5]"
  have cs: "windowCells d start = ?cs" by (simp add: windowCells_def start del: upto.simps)
  have my: "stoneOf (currentPlayer state) = ?my" by (simp add: stoneOf_def)
  have opp: "stoneOf (switchPlayer (currentPlayer state)) = ?opp"
    by (simp add: stoneOf_def switchPlayer_def)
  from win have ins: "list_all isInsideBoard ?cs" and mine: "countCells ?b ?my ?cs = 0"
    and shape: "(countCells ?b ?opp ?cs \<ge> 5 \<and> length (emptyCells ?b ?cs) \<ge> 1) \<or>
                (countCells ?b ?opp ?cs \<ge> 4 \<and> length (emptyCells ?b ?cs) \<ge> 2)"
    unfolding urgentWindow_def Let_def cs my opp by blast+
  have "(5::int) \<in> set [0..5]" by simp
  with ins have "isInsideBoard (x + dirDx d * 5, y + dirDy d * 5)"
    unfolding list_all_iff set_map by blast
  then have endOk: "\<not> (x + dirDx d * 5 < 0 \<or> y + dirDy d * 5 < 0 \<or>
      x + dirDx d * 5 \<ge> BOARD_SIZE \<or> y + dirDy d * 5 \<ge> BOARD_SIZE)"
    by (auto simp: isInsideBoard_def)
  have "set (urgentStep ?b ?my ?opp d y x []) = set (emptyCells ?b ?cs)"
    using endOk mine shape
    by (auto simp: urgentStep_def Let_def set_foldl_addUnique simp del: upto.simps)
  with p cs have "p \<in> set (urgentStep ?b ?my ?opp d y x [])" by simp
  moreover from st start have "x \<in> {0..BOARD_SIZE - 1}" "y \<in> {0..BOARD_SIZE - 1}"
    by (simp_all add: boardCells_range)
  ultimately show ?thesis
    unfolding set_findUrgentThreatBlocks using d by blast
qed

lemma insertBy_set: "set (insertBy cmp a bs) = insert a (set bs)"
  by (induction bs) auto

lemma jsSort_set: "set (jsSort cmp as) = set as"
proof -
  have "set (foldl (\<lambda>acc a. insertBy cmp a acc) acc as) = set acc \<union> set as" for acc
    by (induction as arbitrary: acc) (auto simp: insertBy_set)
  then show ?thesis by (simp add: jsSort_def)
qed

lemma rzopStep_candidates: "set (candidates acc) \<subseteq> set (candidates (rzopStep state urgent acc pos))"
  by (auto simp: rzopStep_def Let_def set_addUnique)

lemma rzop_fold_candidates:
  "set (candidates acc) \<subseteq> set (candidates (foldl (rzopStep state urgent) acc rel))"
proof (induction rel arbitrary: acc)
  case Nil
  show ?case by simp
next
  case (Cons pos rel)
  have "set (candidates acc) \<subseteq> set (candidates (rzopStep state urgent acc pos))"
    by (rule rzopStep_candidates)
  also have "\<dots> \<subseteq> set (candidates (foldl (rzopStep state urgent) (rzopStep state urgent acc pos) rel))"
    by (rule Cons.IH)
  finally show ?case by simp
qed

lemma urgent_in_candidates:
  assumes "p \<in> set (findUrgentThreatBlocks state)"
  shows "p \<in> set (generateRZOPCandidates state)"
proof -
  let ?urgent = "findUrgentThreatBlocks state"
  let ?ini = "\<lparr>candidates = foldl (\<lambda>cs p. addUnique p cs) [] ?urgent,
                  rowCount = Map.empty, diag1Count = Map.empty, diag2Count = Map.empty\<rparr>"
  let ?acc = "foldl (rzopStep state ?urgent) ?ini (computeRelevantZones state 3)"
  from assms have "p \<in> set (candidates ?ini)" by (simp add: set_foldl_addUnique)
  moreover have "set (candidates ?ini) \<subseteq> set (candidates ?acc)"
    by (rule rzop_fold_candidates)
  ultimately have mem: "p \<in> set (candidates ?acc)" by (rule rev_subsetD)
  then have "length (candidates ?acc) \<noteq> 0" by auto
  with mem show ?thesis
    unfolding generateRZOPCandidates_def Let_def by (simp add: jsSort_set)
qed

lemma cellAt_placeStones_xy:
  assumes "wfBoard b" and "list_all isInsideBoard ps" and "isInsideBoard (x, y)"
  shows "cellAt (placeStones b v ps) x y = (if (x, y) \<in> set ps then v else cellAt b x y)"
  using cellAt_placeStones [OF assms(1,2), of "(x, y)" v] assms(3) by simp

lemmas board_eval =
  cellAt_placeStones_xy wfBoard_placeStones wfBoard_createEmptyBoard cellAt_createEmptyBoard
  isInsideBoard_def BOARD_SIZE_def upto_0_5

lemma urgentBlockCell_intro:
  assumes "d \<in> set DIRS" and "isInsideBoard start" and "urgentWindow state d start"
    and "p \<in> set (emptyCells (board state) (windowCells d start))"
  shows "urgentBlockCell state p"
  using assms unfolding urgentBlockCell_def list_ex_iff set_boardCells by blast

text \<open>
  C6. For every well-formed state, the list returned by \<^verbatim>\<open>generateRZOPCandidates\<close>
  contains every urgent-block cell of the side to move: every empty cell of a window of
  six cells that holds no stone of the mover and either at least five opponent stones and
  one empty cell, or at least four opponent stones and two empty cells. The statement
  covers the fallback branch too (the relevance zone is returned only when there is no
  candidate at all, hence no urgent cell).
\<close>

theorem rzop_contains_urgent_blocks:
  assumes "wfBoard (board state)" and "urgentBlockCell state p"
  shows "p \<in> set (generateRZOPCandidates state)"
proof -
  from assms(2) have "p \<in> set (findUrgentThreatBlocks state)"
    by (rule urgentBlockCell_found)
  then show ?thesis
    by (rule urgent_in_candidates)
qed

text \<open>
  Witness for C6: four white stones in a row with both ends open, Black to move; the
  cell to the left of the row is an urgent block.
\<close>

theorem rzop_contains_urgent_blocks_witness:
  "wfBoard (board (createInitialState
      \<lparr>board := placeStones (placeStones createEmptyBoard White [(3, 3), (4, 3), (5, 3), (6, 3)])
                  Black [(9, 9), (9, 10), (10, 10)],
       moveNumber := 4\<rparr>)) \<and>
   urgentBlockCell (createInitialState
      \<lparr>board := placeStones (placeStones createEmptyBoard White [(3, 3), (4, 3), (5, 3), (6, 3)])
                  Black [(9, 9), (9, 10), (10, 10)],
       moveNumber := 4\<rparr>) (2, 3) \<and>
   (2, 3) \<in> set (generateRZOPCandidates (createInitialState
      \<lparr>board := placeStones (placeStones createEmptyBoard White [(3, 3), (4, 3), (5, 3), (6, 3)])
                  Black [(9, 9), (9, 10), (10, 10)],
       moveNumber := 4\<rparr>))"
proof -
  let ?s = "createInitialState
      \<lparr>board := placeStones (placeStones createEmptyBoard White [(3, 3), (4, 3), (5, 3), (6, 3)])
                  Black [(9, 9), (9, 10), (10, 10)],
       moveNumber := 4\<rparr>"
  have wf: "wfBoard (board ?s)"
    by (simp add: board_eval del: placeStones.simps)
  have win: "urgentWindow ?s DirH (2, 3)"
    by (simp add: urgentWindow_def windowCells_def countCells_def emptyCells_def Let_def
          createInitialState_def stoneOf_def switchPlayer_def board_eval del: placeStones.simps)
  have mem: "(2, 3) \<in> set (emptyCells (board ?s) (windowCells DirH (2, 3)))"
    by (simp add: windowCells_def emptyCells_def board_eval del: placeStones.simps)
  have u: "urgentBlockCell ?s (2, 3)"
    by (rule urgentBlockCell_intro [OF _ _ win mem]) (simp_all add: DIRS_def board_eval)
  from rzop_contains_urgent_blocks [OF wf u] wf u show ?thesis by blast
qed

subsection \<open>The order of the scores\<close>

lemma jsLessEq_refl: "jsLessEq a a"
  by (simp add: jsLessEq_def)

lemma jsLess_trans: "jsLess a b \<Longrightarrow> jsLess b c \<Longrightarrow> jsLess a c"
  by (cases a; cases b; cases c) simp_all

lemma jsLessEq_trans: "jsLessEq a b \<Longrightarrow> jsLessEq b c \<Longrightarrow> jsLessEq a c"
  unfolding jsLessEq_def using jsLess_trans by blast

subsection \<open>The final choice of the tree search\<close>

lemma decodeMoveKey_valid: "length key = 4 \<Longrightarrow> \<exists>mv. decodeMoveKey key p = Inr mv"
  by (auto simp: decodeMoveKey_def length_Suc_conv eval_nat_numeral split: list.splits)

lemma jsLess_total: "jsLess a b \<or> a = b \<or> jsLess b a"
  by (cases a; cases b) auto

lemma jsLess_asym: "jsLess a b \<Longrightarrow> \<not> jsLess b a"
  by (cases a; cases b) auto

lemma jsLess_irrefl: "\<not> jsLess a a"
  by (cases a) auto

lemma not_jsLessEq: "(\<not> jsLessEq a b) = jsLess b a"
  using jsLess_total [of a b] jsLess_asym [of a b] jsLess_irrefl [of a]
  by (auto simp: jsLessEq_def)

lemma winRateOf_Q: "winRateOf c = winRateQ c"
  by (simp add: winRateOf_def winRateQ_def)

lemma atLeastAsGood_refl: "atLeastAsGood a a"
  by (simp add: atLeastAsGood_def jsLessEq_def)

lemma atLeastAsGood_trans: "atLeastAsGood a b \<Longrightarrow> atLeastAsGood b c \<Longrightarrow> atLeastAsGood a c"
  using jsLessEq_trans by (auto simp: atLeastAsGood_def)

lemma atLeastAsGood_total: "atLeastAsGood a b \<or> atLeastAsGood b a"
  using jsLess_total [of "winRateQ a" "winRateQ b"]
  by (auto simp: atLeastAsGood_def jsLessEq_def)

lemma improves_iff:
  "(int (visits child) > int (visits c0) \<or>
      (int (visits child) = int (visits c0) \<and> jsLess (winRateOf c0) (winRateOf child)))
   = (\<not> atLeastAsGood c0 child)"
  by (auto simp: atLeastAsGood_def winRateOf_Q not_jsLessEq [symmetric])

lemma selectLoop_best:
  assumes "\<forall>kc\<in>set cs. length (fst kc) = 4"
  shows "(selectLoop p cs (bestOf mv0 c0) = Inr (bestOf mv0 c0) \<and>
            (\<forall>kc\<in>set cs. atLeastAsGood c0 (snd kc))) \<or>
         (\<exists>pre k c post mv. cs = pre @ (k, c) # post \<and> decodeMoveKey k p = Inr mv \<and>
            selectLoop p cs (bestOf mv0 c0) = Inr (bestOf mv c) \<and>
            \<not> atLeastAsGood c0 c \<and>
            (\<forall>kc\<in>set pre. \<not> atLeastAsGood (snd kc) c) \<and>
            (\<forall>kc\<in>set post. atLeastAsGood c (snd kc)))"
  using assms
proof (induction cs arbitrary: mv0 c0)
  case Nil
  then show ?case by simp
next
  case (Cons kc cs)
  obtain key child where kc: "kc = (key, child)" by (cases kc)
  from Cons.prems kc have valid: "length key = 4" and rest: "\<forall>kc\<in>set cs. length (fst kc) = 4"
    by simp_all
  show ?case
  proof (cases "atLeastAsGood c0 child")
    case False
    from decodeMoveKey_valid [OF valid] obtain mv where mv: "decodeMoveKey key p = Inr mv" by blast
    from False have step: "selectLoop p (kc # cs) (bestOf mv0 c0) = selectLoop p cs (bestOf mv child)"
      using improves_iff [where child = child and ?c0.0 = c0]
      by (simp add: kc bestOf_def mv winRateOf_Q)
    from Cons.IH [OF rest, of mv child] show ?thesis
    proof (elim disjE exE conjE)
      assume "selectLoop p cs (bestOf mv child) = Inr (bestOf mv child)"
        and "\<forall>kc\<in>set cs. atLeastAsGood child (snd kc)"
      with step mv False kc have "kc # cs = [] @ (key, child) # cs \<and> decodeMoveKey key p = Inr mv \<and>
            selectLoop p (kc # cs) (bestOf mv0 c0) = Inr (bestOf mv child) \<and>
            \<not> atLeastAsGood c0 child \<and>
            (\<forall>kc\<in>set []. \<not> atLeastAsGood (snd kc) child) \<and>
            (\<forall>kc\<in>set cs. atLeastAsGood child (snd kc))" by simp
      then show ?thesis by blast
    next
      fix pre k c post mv'
      assume cs: "cs = pre @ (k, c) # post" and dk: "decodeMoveKey k p = Inr mv'"
        and r: "selectLoop p cs (bestOf mv child) = Inr (bestOf mv' c)"
        and better: "\<not> atLeastAsGood child c"
        and pre: "\<forall>kc\<in>set pre. \<not> atLeastAsGood (snd kc) c"
        and post: "\<forall>kc\<in>set post. atLeastAsGood c (snd kc)"
      from better atLeastAsGood_total [of child c] have "atLeastAsGood c child" by simp
      with False have "\<not> atLeastAsGood c0 c" using atLeastAsGood_trans by blast
      with cs dk r step better pre post kc
      have "kc # cs = (kc # pre) @ (k, c) # post \<and> decodeMoveKey k p = Inr mv' \<and>
            selectLoop p (kc # cs) (bestOf mv0 c0) = Inr (bestOf mv' c) \<and>
            \<not> atLeastAsGood c0 c \<and>
            (\<forall>kc'\<in>set (kc # pre). \<not> atLeastAsGood (snd kc') c) \<and>
            (\<forall>kc\<in>set post. atLeastAsGood c (snd kc))" by simp
      then show ?thesis by blast
    qed
  next
    case True
    from True have step: "selectLoop p (kc # cs) (bestOf mv0 c0) = selectLoop p cs (bestOf mv0 c0)"
      using improves_iff [where child = child and ?c0.0 = c0]
      by (auto simp: kc bestOf_def winRateOf_Q)
    from Cons.IH [OF rest, of mv0 c0] show ?thesis
    proof (elim disjE exE conjE)
      assume "selectLoop p cs (bestOf mv0 c0) = Inr (bestOf mv0 c0)"
        and "\<forall>kc\<in>set cs. atLeastAsGood c0 (snd kc)"
      with step True kc show ?thesis by simp
    next
      fix pre k c post mv'
      assume cs: "cs = pre @ (k, c) # post" and dk: "decodeMoveKey k p = Inr mv'"
        and r: "selectLoop p cs (bestOf mv0 c0) = Inr (bestOf mv' c)"
        and better: "\<not> atLeastAsGood c0 c"
        and pre: "\<forall>kc\<in>set pre. \<not> atLeastAsGood (snd kc) c"
        and post: "\<forall>kc\<in>set post. atLeastAsGood c (snd kc)"
      from better True have "\<not> atLeastAsGood child c" using atLeastAsGood_trans by blast
      with cs dk r step better pre post kc
      have "kc # cs = (kc # pre) @ (k, c) # post \<and> decodeMoveKey k p = Inr mv' \<and>
            selectLoop p (kc # cs) (bestOf mv0 c0) = Inr (bestOf mv' c) \<and>
            \<not> atLeastAsGood c0 c \<and>
            (\<forall>kc'\<in>set (kc # pre). \<not> atLeastAsGood (snd kc') c) \<and>
            (\<forall>kc\<in>set post. atLeastAsGood c (snd kc))" by simp
      then show ?thesis by blast
    qed
  qed
qed

text \<open>
  C9. When the simulations have left the root node with at least one child (under
  well-formed move keys), the move returned by \<^verbatim>\<open>decideMove\<close> is that of a root child
  with the greatest visit count, and among the children with that visit count one with
  the greatest value Q, the double-precision quotient \<open>wins / visits\<close>; the returned
  score is that child's Q. Among several such children it is the first in the order of
  the children: every child before it is not at least as good.
\<close>

theorem decideMoveSelect_argmax:
  assumes "children rootNode \<noteq> []"
    and "\<forall>kc\<in>set (children rootNode). length (fst kc) = 4"
  shows "\<exists>dec pre key child post. decideMoveSelect rootNode p = Inr dec \<and>
           children rootNode = pre @ (key, child) # post \<and>
           decodeMoveKey key p = Inr (mctsMove dec) \<and>
           mctsScore dec = winRateQ child \<and>
           (\<forall>kc\<in>set (children rootNode). atLeastAsGood child (snd kc)) \<and>
           (\<forall>kc\<in>set pre. \<not> atLeastAsGood (snd kc) child)"
proof -
  from assms(1) obtain key0 child0 cs where ch: "children rootNode = (key0, child0) # cs"
    by (cases "children rootNode") auto
  with assms(2) have valid: "length key0 = 4" and rest: "\<forall>kc\<in>set cs. length (fst kc) = 4"
    by simp_all
  from decodeMoveKey_valid [OF valid] obtain mv0 where mv0: "decodeMoveKey key0 p = Inr mv0" by blast
  let ?ini = "\<lparr>mctsBestMove = None, mctsBestVisits = - 1, mctsBestScore = NegInfinity\<rparr>"
  have first: "selectLoop p (children rootNode) ?ini = selectLoop p cs (bestOf mv0 child0)"
    by (simp add: ch mv0 bestOf_def winRateOf_Q)
  have dec: "selectLoop p cs (bestOf mv0 child0) = Inr (bestOf mv c) \<Longrightarrow>
      decideMoveSelect rootNode p = Inr \<lparr>mctsMove = mv, mctsScore = winRateQ c, mctsStrategy = ''deep'',
                mctsRootVisits = visits rootNode\<rparr>" for mv c
    by (simp add: decideMoveSelect_def first bestOf_def winRateOf_Q)
  from selectLoop_best [OF rest, of p mv0 child0] show ?thesis
  proof (elim disjE exE conjE)
    assume r: "selectLoop p cs (bestOf mv0 child0) = Inr (bestOf mv0 child0)"
      and all: "\<forall>kc\<in>set cs. atLeastAsGood child0 (snd kc)"
    from dec [OF r] ch mv0 all atLeastAsGood_refl [of child0]
    have "decideMoveSelect rootNode p = Inr \<lparr>mctsMove = mv0, mctsScore = winRateQ child0,
             mctsStrategy = ''deep'', mctsRootVisits = visits rootNode\<rparr> \<and>
           children rootNode = [] @ (key0, child0) # cs \<and>
           decodeMoveKey key0 p = Inr mv0 \<and>
           (\<forall>kc\<in>set (children rootNode). atLeastAsGood child0 (snd kc)) \<and>
           (\<forall>kc\<in>set []. \<not> atLeastAsGood (snd kc) child0)" by simp
    then show ?thesis
      by (intro exI [of _ "\<lparr>mctsMove = mv0, mctsScore = winRateQ child0,
             mctsStrategy = ''deep'', mctsRootVisits = visits rootNode\<rparr>"]
          exI [of _ "[]"] exI [of _ key0] exI [of _ child0] exI [of _ cs]) simp
  next
    fix pre k c post mv
    assume cs: "cs = pre @ (k, c) # post" and dk: "decodeMoveKey k p = Inr mv"
      and r: "selectLoop p cs (bestOf mv0 child0) = Inr (bestOf mv c)"
      and better: "\<not> atLeastAsGood child0 c"
      and pre: "\<forall>kc\<in>set pre. \<not> atLeastAsGood (snd kc) c"
      and post: "\<forall>kc\<in>set post. atLeastAsGood c (snd kc)"
    from better atLeastAsGood_total [of child0 c] have c0: "atLeastAsGood c child0" by simp
    have "\<forall>kc\<in>set pre. atLeastAsGood c (snd kc)"
      using pre atLeastAsGood_total by blast
    with dec [OF r] ch cs dk c0 pre post better atLeastAsGood_refl [of c]
    have "decideMoveSelect rootNode p = Inr \<lparr>mctsMove = mv, mctsScore = winRateQ c,
             mctsStrategy = ''deep'', mctsRootVisits = visits rootNode\<rparr> \<and>
           children rootNode = ((key0, child0) # pre) @ (k, c) # post \<and>
           decodeMoveKey k p = Inr mv \<and>
           (\<forall>kc\<in>set (children rootNode). atLeastAsGood c (snd kc)) \<and>
           (\<forall>kc\<in>set ((key0, child0) # pre). \<not> atLeastAsGood (snd kc) c)" by auto
    then show ?thesis
      by (intro exI [of _ "\<lparr>mctsMove = mv, mctsScore = winRateQ c,
             mctsStrategy = ''deep'', mctsRootVisits = visits rootNode\<rparr>"]
          exI [of _ "(key0, child0) # pre"] exI [of _ k] exI [of _ c] exI [of _ post]) simp
  qed
qed


text \<open>
  Witness for C9: three children. The first two have three visits each and the wins
  \<open>3/2 + 2\<^sup>-\<^sup>5\<^sup>2\<close> and \<open>3/2 + 2\<^sup>-\<^sup>5\<^sup>1\<close>; the third has two visits.
\<close>

theorem decideMoveSelect_argmax_witness:
  "children (MctsNode createInitialState BLACK 8 5 1
      [([9, 9, 10, 9], MctsNode createInitialState WHITE 3 (3 / 2 + 1 / 2 ^ 52) (1 / 2) [] False 3),
       ([8, 9, 9, 10], MctsNode createInitialState WHITE 3 (3 / 2 + 1 / 2 ^ 51) (1 / 2) [] False 4),
       ([7, 7, 8, 8], MctsNode createInitialState WHITE 2 2 (1 / 2) [] False 2)] True 5) \<noteq> [] \<and>
   list_all (\<lambda>kc. length (fst kc) = 4)
     (children (MctsNode createInitialState BLACK 8 5 1
      [([9, 9, 10, 9], MctsNode createInitialState WHITE 3 (3 / 2 + 1 / 2 ^ 52) (1 / 2) [] False 3),
       ([8, 9, 9, 10], MctsNode createInitialState WHITE 3 (3 / 2 + 1 / 2 ^ 51) (1 / 2) [] False 4),
       ([7, 7, 8, 8], MctsNode createInitialState WHITE 2 2 (1 / 2) [] False 2)] True 5)) \<and>
   (\<exists>dec pre key child post.
      decideMoveSelect (MctsNode createInitialState BLACK 8 5 1
        [([9, 9, 10, 9], MctsNode createInitialState WHITE 3 (3 / 2 + 1 / 2 ^ 52) (1 / 2) [] False 3),
         ([8, 9, 9, 10], MctsNode createInitialState WHITE 3 (3 / 2 + 1 / 2 ^ 51) (1 / 2) [] False 4),
         ([7, 7, 8, 8], MctsNode createInitialState WHITE 2 2 (1 / 2) [] False 2)] True 5) BLACK
        = Inr dec \<and>
      [([9, 9, 10, 9], MctsNode createInitialState WHITE 3 (3 / 2 + 1 / 2 ^ 52) (1 / 2) [] False 3),
       ([8, 9, 9, 10], MctsNode createInitialState WHITE 3 (3 / 2 + 1 / 2 ^ 51) (1 / 2) [] False 4),
       ([7, 7, 8, 8], MctsNode createInitialState WHITE 2 2 (1 / 2) [] False 2)]
        = pre @ (key, child) # post \<and>
      decodeMoveKey key BLACK = Inr (mctsMove dec) \<and>
      mctsScore dec = winRateQ child \<and>
      atLeastAsGood child
        (MctsNode createInitialState WHITE 3 (3 / 2 + 1 / 2 ^ 52) (1 / 2) [] False 3) \<and>
      atLeastAsGood child
        (MctsNode createInitialState WHITE 3 (3 / 2 + 1 / 2 ^ 51) (1 / 2) [] False 4) \<and>
      atLeastAsGood child (MctsNode createInitialState WHITE 2 2 (1 / 2) [] False 2) \<and>
      list_all (\<lambda>kc. \<not> atLeastAsGood (snd kc) child) pre)"
proof -
  let ?root = "MctsNode createInitialState BLACK 8 5 1
      [([9, 9, 10, 9], MctsNode createInitialState WHITE 3 (3 / 2 + 1 / 2 ^ 52) (1 / 2) [] False 3),
       ([8, 9, 9, 10], MctsNode createInitialState WHITE 3 (3 / 2 + 1 / 2 ^ 51) (1 / 2) [] False 4),
       ([7, 7, 8, 8], MctsNode createInitialState WHITE 2 2 (1 / 2) [] False 2)] True 5"
  let ?c1 = "MctsNode createInitialState WHITE 3 (3 / 2 + 1 / 2 ^ 52) (1 / 2) [] False 3"
  let ?c2 = "MctsNode createInitialState WHITE 3 (3 / 2 + 1 / 2 ^ 51) (1 / 2) [] False 4"
  let ?c3 = "MctsNode createInitialState WHITE 2 2 (1 / 2) [] False 2"
  have ch: "children ?root = [([9, 9, 10, 9], ?c1), ([8, 9, 9, 10], ?c2), ([7, 7, 8, 8], ?c3)]"
    by simp
  have ne: "children ?root \<noteq> []" by simp
  have keys: "\<forall>kc\<in>set (children ?root). length (fst kc) = 4" by simp
  have keys': "list_all (\<lambda>kc. length (fst kc) = 4) (children ?root)" by simp
  from decideMoveSelect_argmax [OF ne keys, of BLACK] obtain dec pre key child post where
    d: "decideMoveSelect ?root BLACK = Inr dec"
    and sp: "children ?root = pre @ (key, child) # post"
    and k: "decodeMoveKey key BLACK = Inr (mctsMove dec)"
    and sc: "mctsScore dec = winRateQ child"
    and all: "\<forall>kc\<in>set (children ?root). atLeastAsGood child (snd kc)"
    and before: "\<forall>kc\<in>set pre. \<not> atLeastAsGood (snd kc) child" by blast
  from all have a: "atLeastAsGood child ?c1" "atLeastAsGood child ?c2" "atLeastAsGood child ?c3"
    unfolding ch by simp_all
  from before have b: "list_all (\<lambda>kc. \<not> atLeastAsGood (snd kc) child) pre"
    by (simp add: list_all_iff)
  from sp have sp': "[([9, 9, 10, 9], ?c1), ([8, 9, 9, 10], ?c2), ([7, 7, 8, 8], ?c3)]
      = pre @ (key, child) # post" unfolding ch .
  from ne keys' d sp' k sc a b show ?thesis by blast
qed

text \<open>
  On that root node the quotients of the first two children are different reals that
  round to the same double, \<open>1/2 + 2\<^sup>-\<^sup>5\<^sup>3\<close>: the comparison \<^verbatim>\<open>winRate > bestScore\<close> is
  false for the second child, and the move of the first child is returned.
\<close>

lemma nearestDouble_tie_first: "nearestDouble ((3 / 2 + 1 / 2 ^ 52) / 3) = Num (1 / 2 + 1 / 2 ^ 53)"
proof -
  have e: "binExponent (6755399441055745 / 13510798882111488) 0 = - 1"
    by (simp add: binExponent.simps)
  have r: "roundHalfEven (13510798882111490 / 3) = 4503599627370497"
    by (simp add: roundHalfEven_def Let_def)
  show ?thesis by (simp add: nearestDouble_def Let_def e pow2_def r)
qed

lemma nearestDouble_tie_second: "nearestDouble ((3 / 2 + 1 / 2 ^ 51) / 3) = Num (1 / 2 + 1 / 2 ^ 53)"
proof -
  have e: "binExponent (3377699720527873 / 6755399441055744) 0 = - 1"
    by (simp add: binExponent.simps)
  have r: "roundHalfEven (13510798882111492 / 3) = 4503599627370497"
    by (simp add: roundHalfEven_def Let_def)
  show ?thesis by (simp add: nearestDouble_def Let_def e pow2_def r)
qed

lemma decideMoveSelect_double_tie:
  "decideMoveSelect (MctsNode createInitialState BLACK 8 5 1
      [([9, 9, 10, 9], MctsNode createInitialState WHITE 3 (3 / 2 + 1 / 2 ^ 52) (1 / 2) [] False 3),
       ([8, 9, 9, 10], MctsNode createInitialState WHITE 3 (3 / 2 + 1 / 2 ^ 51) (1 / 2) [] False 4),
       ([7, 7, 8, 8], MctsNode createInitialState WHITE 2 2 (1 / 2) [] False 2)] True 5) BLACK
   = Inr \<lparr>mctsMove = \<lparr>player = BLACK, positions = [(9, 9), (10, 9)]\<rparr>,
           mctsScore = Num (1 / 2 + 1 / 2 ^ 53), mctsStrategy = ''deep'', mctsRootVisits = 8\<rparr>"
  by (simp add: decideMoveSelect_def winRateOf_def decodeMoveKey_def
        nearestDouble_tie_first [simplified] nearestDouble_tie_second [simplified])


subsection \<open>The transposition table\<close>

lemma length_mapSet: "length (mapSet m k v) \<le> Suc (length m)"
  by (induction m) auto

lemma insertBy_length: "length (insertBy cmp a bs) = Suc (length bs)"
  by (induction bs) auto

lemma jsSort_length: "length (jsSort cmp as) = length as"
proof -
  have "length (foldl (\<lambda>acc a. insertBy cmp a acc) acc as) = length acc + length as" for acc
    by (induction as arbitrary: acc) (auto simp: insertBy_length)
  then show ?thesis by (simp add: jsSort_def)
qed

lemma insertBy_mset: "mset (insertBy cmp a bs) = add_mset a (mset bs)"
  by (induction bs) auto

lemma jsSort_mset: "mset (jsSort cmp as) = mset as"
proof -
  have "mset (foldl (\<lambda>acc a. insertBy cmp a acc) acc as) = mset acc + mset as" for acc
    by (induction as arbitrary: acc) (auto simp: insertBy_mset)
  then show ?thesis by (simp add: jsSort_def)
qed

lemma insertBy_sorted_desc:
  fixes key :: "'a \<Rightarrow> int"
  assumes cmp: "\<And>a b. (cmp a b > 0) = (key a < key b)"
    and "sorted_wrt (\<lambda>a b. key b \<le> key a) bs"
  shows "sorted_wrt (\<lambda>a b. key b \<le> key a) (insertBy cmp x bs)"
  using assms(2)
proof (induction bs)
  case Nil
  then show ?case by simp
next
  case (Cons b bs)
  show ?case
  proof (cases "cmp b x > 0")
    case True
    then have "key b < key x" by (simp only: cmp)
    with True Cons.prems show ?thesis by auto
  next
    case False
    then have "key x \<le> key b" by (simp add: cmp)
    with False Cons show ?thesis by (auto simp: insertBy_set)
  qed
qed

lemma jsSort_sorted_desc:
  fixes key :: "'a \<Rightarrow> int"
  assumes cmp: "\<And>a b. (cmp a b > 0) = (key a < key b)"
  shows "sorted_wrt (\<lambda>a b. key b \<le> key a) (jsSort cmp as)"
proof -
  have "sorted_wrt (\<lambda>a b. key b \<le> key a) acc \<Longrightarrow>
        sorted_wrt (\<lambda>a b. key b \<le> key a) (foldl (\<lambda>acc a. insertBy cmp a acc) acc as)" for acc
  proof (induction as arbitrary: acc)
    case Nil
    then show ?case by simp
  next
    case (Cons a as)
    from Cons.prems have "sorted_wrt (\<lambda>a b. key b \<le> key a) (insertBy cmp a acc)"
      by (rule insertBy_sorted_desc [OF cmp])
    from Cons.IH [OF this] show ?case by simp
  qed
  from this [of "[]"] show ?thesis by (simp add: jsSort_def)
qed

lemma sorted_desc_take_drop:
  assumes "sorted_wrt (\<lambda>a b. key b \<le> key a) xs" and "a \<in> set (take n xs)" and "b \<in> set (drop n xs)"
  shows "key b \<le> (key a :: int)"
proof -
  from assms(1) have "sorted_wrt (\<lambda>a b. key b \<le> key a) (take n xs @ drop n xs)" by simp
  with assms(2,3) show ?thesis unfolding sorted_wrt_append by blast
qed


lemma storeTT_cases:
  "storeTT state depth score alpha beta bm tt =
     (if (case mapGet tt (hashState state) of None \<Rightarrow> False | Some e \<Rightarrow> ttDepth e > depth) then tt
      else if length (mapSet tt (hashState state)
                \<lparr>ttDepth = depth, ttScore = score,
                 ttFlagOf = (if jsLessEq score alpha then UPPER
                             else if jsLessEq beta score then LOWER else EXACT),
                 ttBestMove = bm\<rparr>) > MAX_TT_ENTRIES
      then take 800000 (jsSort (\<lambda>a b. real_of_int (ttDepth (snd b) - ttDepth (snd a)))
             (mapSet tt (hashState state)
                \<lparr>ttDepth = depth, ttScore = score,
                 ttFlagOf = (if jsLessEq score alpha then UPPER
                             else if jsLessEq beta score then LOWER else EXACT),
                 ttBestMove = bm\<rparr>))
      else mapSet tt (hashState state)
                \<lparr>ttDepth = depth, ttScore = score,
                 ttFlagOf = (if jsLessEq score alpha then UPPER
                             else if jsLessEq beta score then LOWER else EXACT),
                 ttBestMove = bm\<rparr>)"
  by (simp add: storeTT_def Let_def)

lemma mapGet_absent:
  "k \<notin> fst ` set m \<Longrightarrow> mapGet m k = None"
  by (simp add: mapGet_def map_of_eq_None_iff)

lemma length_mapSet_absent:
  "k \<notin> fst ` set m \<Longrightarrow> length (mapSet m k v) = Suc (length m)"
  by (induction m) auto

text \<open>
  C7. A table of at most 1,000,000 entries has at most 1,000,000 entries after
  \<^verbatim>\<open>storeTT\<close> (so the bound holds after every store, the table being empty at first);
  a store for a key whose entry has strictly greater depth leaves the table unchanged;
  and when the insertion makes the table exceed 1,000,000 entries, the result is the
  first 800,000 (80 percent of the cap) of its entries sorted by depth, deepest first: no
  dropped entry is deeper than a kept one.
\<close>

theorem storeTT_policy:
  assumes "length tt \<le> MAX_TT_ENTRIES"
  shows "length (storeTT state depth score alpha beta bm tt) \<le> MAX_TT_ENTRIES \<and>
    (\<forall>e. mapGet tt (hashState state) = Some e \<and> depth < ttDepth e \<longrightarrow>
         storeTT state depth score alpha beta bm tt = tt) \<and>
    (\<forall>tt'. tt' = mapSet tt (hashState state)
                \<lparr>ttDepth = depth, ttScore = score,
                 ttFlagOf = (if jsLessEq score alpha then UPPER
                             else if jsLessEq beta score then LOWER else EXACT),
                 ttBestMove = bm\<rparr> \<and>
           \<not> (\<exists>e. mapGet tt (hashState state) = Some e \<and> depth < ttDepth e) \<and>
           length tt' > MAX_TT_ENTRIES \<longrightarrow>
         (\<exists>sortedEntries.
            mset sortedEntries = mset tt' \<and>
            sorted_wrt (\<lambda>a b. ttDepth (snd b) \<le> ttDepth (snd a)) sortedEntries \<and>
            storeTT state depth score alpha beta bm tt = take 800000 sortedEntries \<and>
            length (storeTT state depth score alpha beta bm tt) = 800000 \<and>
            (\<forall>kept\<in>set (take 800000 sortedEntries). \<forall>dropped\<in>set (drop 800000 sortedEntries).
               ttDepth (snd dropped) \<le> ttDepth (snd kept))))"
proof (intro conjI allI impI)
  let ?entry = "\<lparr>ttDepth = depth, ttScore = score,
                 ttFlagOf = (if jsLessEq score alpha then UPPER
                             else if jsLessEq beta score then LOWER else EXACT),
                 ttBestMove = bm\<rparr>"
  let ?tt = "mapSet tt (hashState state) ?entry"
  let ?cmp = "\<lambda>a b :: ttKey \<times> ttEntry. real_of_int (ttDepth (snd b) - ttDepth (snd a))"
  have "length ?tt \<le> Suc (length tt)" by (rule length_mapSet)
  with assms show "length (storeTT state depth score alpha beta bm tt) \<le> MAX_TT_ENTRIES"
    unfolding storeTT_cases by (auto simp: MAX_TT_ENTRIES_def jsSort_length)
  show "storeTT state depth score alpha beta bm tt = tt"
    if "mapGet tt (hashState state) = Some e \<and> depth < ttDepth e" for e
    using that unfolding storeTT_cases by simp
  show "\<exists>sortedEntries.
            mset sortedEntries = mset tt' \<and>
            sorted_wrt (\<lambda>a b. ttDepth (snd b) \<le> ttDepth (snd a)) sortedEntries \<and>
            storeTT state depth score alpha beta bm tt = take 800000 sortedEntries \<and>
            length (storeTT state depth score alpha beta bm tt) = 800000 \<and>
            (\<forall>kept\<in>set (take 800000 sortedEntries). \<forall>dropped\<in>set (drop 800000 sortedEntries).
               ttDepth (snd dropped) \<le> ttDepth (snd kept))"
    if h: "tt' = ?tt \<and> \<not> (\<exists>e. mapGet tt (hashState state) = Some e \<and> depth < ttDepth e) \<and>
           length tt' > MAX_TT_ENTRIES" for tt'
  proof -
    have srt: "sorted_wrt (\<lambda>a b. ttDepth (snd b) \<le> ttDepth (snd a)) (jsSort ?cmp ?tt)"
      by (rule jsSort_sorted_desc) simp
    from h have nodeeper: "\<not> (case mapGet tt (hashState state) of None \<Rightarrow> False
        | Some e \<Rightarrow> ttDepth e > depth)"
      by (auto split: option.splits)
    from h have t: "tt' = ?tt" and "length tt' > MAX_TT_ENTRIES" by blast+
    then have big: "length ?tt > MAX_TT_ENTRIES" by (simp only:)
    have eq: "storeTT state depth score alpha beta bm tt = take 800000 (jsSort ?cmp ?tt)"
      unfolding storeTT_cases using nodeeper big by simp
    from big have len: "length (take 800000 (jsSort ?cmp ?tt)) = 800000"
      by (simp add: jsSort_length MAX_TT_ENTRIES_def)
    have "\<forall>kept\<in>set (take 800000 (jsSort ?cmp ?tt)). \<forall>dropped\<in>set (drop 800000 (jsSort ?cmp ?tt)).
               ttDepth (snd dropped) \<le> ttDepth (snd kept)"
      using sorted_desc_take_drop [OF srt] by blast
    moreover have "mset (jsSort ?cmp ?tt) = mset tt'"
      unfolding t by (rule jsSort_mset)
    moreover note srt eq
    moreover from eq len have "length (storeTT state depth score alpha beta bm tt) = 800000"
      by (simp only:)
    ultimately show ?thesis
      by (intro exI [of _ "jsSort ?cmp ?tt"] conjI)
  qed
qed

text \<open>
  Witness for C7: a store of depth 1 for a key held at depth 5 leaves the table as it is;
  a store of a new key into a table of 1,000,000 entries leaves 800,000.
\<close>

theorem storeTT_policy_witness:
  "length [(hashState createInitialState,
            \<lparr>ttDepth = 5, ttScore = Num 0, ttFlagOf = EXACT, ttBestMove = None\<rparr>)] \<le> MAX_TT_ENTRIES \<and>
   mapGet [(hashState createInitialState,
            \<lparr>ttDepth = 5, ttScore = Num 0, ttFlagOf = EXACT, ttBestMove = None\<rparr>)]
      (hashState createInitialState) =
     Some \<lparr>ttDepth = 5, ttScore = Num 0, ttFlagOf = EXACT, ttBestMove = None\<rparr> \<and>
   storeTT createInitialState 1 (Num 7) NegInfinity Infinity None
      [(hashState createInitialState,
            \<lparr>ttDepth = 5, ttScore = Num 0, ttFlagOf = EXACT, ttBestMove = None\<rparr>)] =
      [(hashState createInitialState,
            \<lparr>ttDepth = 5, ttScore = Num 0, ttFlagOf = EXACT, ttBestMove = None\<rparr>)] \<and>
   length (map (\<lambda>n. (hashState (createInitialState\<lparr>moveNumber := int n\<rparr>),
                  \<lparr>ttDepth = 1, ttScore = Num 0, ttFlagOf = EXACT, ttBestMove = None\<rparr>))
             [0..<MAX_TT_ENTRIES]) \<le> MAX_TT_ENTRIES \<and>
   length (mapSet (map (\<lambda>n. (hashState (createInitialState\<lparr>moveNumber := int n\<rparr>),
                  \<lparr>ttDepth = 1, ttScore = Num 0, ttFlagOf = EXACT, ttBestMove = None\<rparr>))
             [0..<MAX_TT_ENTRIES])
           (hashState (createInitialState\<lparr>moveNumber := - 1\<rparr>))
           \<lparr>ttDepth = 2, ttScore = Num 7,
            ttFlagOf = (if jsLessEq (Num 7) NegInfinity then UPPER
                        else if jsLessEq Infinity (Num 7) then LOWER else EXACT),
            ttBestMove = None\<rparr>) > MAX_TT_ENTRIES \<and>
   length (storeTT (createInitialState\<lparr>moveNumber := - 1\<rparr>) 2 (Num 7) NegInfinity Infinity None
             (map (\<lambda>n. (hashState (createInitialState\<lparr>moveNumber := int n\<rparr>),
                  \<lparr>ttDepth = 1, ttScore = Num 0, ttFlagOf = EXACT, ttBestMove = None\<rparr>))
             [0..<MAX_TT_ENTRIES])) = 800000"
proof -
  let ?e5 = "\<lparr>ttDepth = 5, ttScore = Num 0, ttFlagOf = EXACT, ttBestMove = None\<rparr>"
  let ?small = "[(hashState createInitialState, ?e5)]"
  let ?full = "map (\<lambda>n. (hashState (createInitialState\<lparr>moveNumber := int n\<rparr>),
                  \<lparr>ttDepth = 1, ttScore = Num 0, ttFlagOf = EXACT, ttBestMove = None\<rparr>))
             [0..<MAX_TT_ENTRIES]"
  let ?k = "hashState (createInitialState\<lparr>moveNumber := - 1\<rparr>)"
  let ?new = "\<lparr>ttDepth = 2, ttScore = Num 7,
            ttFlagOf = (if jsLessEq (Num 7) NegInfinity then UPPER
                        else if jsLessEq Infinity (Num 7) then LOWER else EXACT),
            ttBestMove = None\<rparr>"
  have s: "length ?small \<le> MAX_TT_ENTRIES" by (simp add: MAX_TT_ENTRIES_def)
  have g: "mapGet ?small (hashState createInitialState) = Some ?e5" by (simp add: mapGet_def)
  have f: "length ?full \<le> MAX_TT_ENTRIES" by simp
  have absent: "?k \<notin> fst ` set ?full"
    by (auto simp: hashState_def)
  then have none: "mapGet ?full ?k = None" by (rule mapGet_absent)
  from absent have over: "length (mapSet ?full ?k ?new) > MAX_TT_ENTRIES"
    by (simp add: length_mapSet_absent)
  from storeTT_policy [OF s, of createInitialState 1 "Num 7" NegInfinity Infinity None] g
  have unchanged: "storeTT createInitialState 1 (Num 7) NegInfinity Infinity None ?small = ?small"
    by simp
  note third = storeTT_policy [OF f, of "createInitialState\<lparr>moveNumber := - 1\<rparr>" 2 "Num 7"
      NegInfinity Infinity None, THEN conjunct2, THEN conjunct2, rule_format,
      of "mapSet ?full ?k ?new"]
  have prem: "mapSet ?full ?k ?new = mapSet ?full ?k ?new \<and>
      \<not> (\<exists>e. mapGet ?full ?k = Some e \<and> 2 < ttDepth e) \<and>
      length (mapSet ?full ?k ?new) > MAX_TT_ENTRIES"
    using none over by simp
  from third [OF prem]
  have pruned: "length (storeTT (createInitialState\<lparr>moveNumber := - 1\<rparr>) 2 (Num 7) NegInfinity
      Infinity None ?full) = 800000"
    by (elim exE conjE)
  from s g unchanged f over pruned show ?thesis by blast
qed

subsection \<open>Smart defence against a live four\<close>

lemma threatEmpties_fold:
  "set (foldl (\<lambda>empties q.
        if \<not> isInsideBoard q \<or> cellAt b (fst q) (snd q) \<noteq> Empty then empties
        else addUnique q empties) acc qs) =
   set acc \<union> {q \<in> set qs. isInsideBoard q \<and> cellAt b (fst q) (snd q) = Empty}"
  by (induction qs arbitrary: acc) (auto simp: set_addUnique)

lemma set_threatEmpties:
  "set (threatEmpties state threat) =
     {q \<in> set (threatPositions threat). isInsideBoard q \<and> cellAt (board state) (fst q) (snd q) = Empty}"
  unfolding threatEmpties_def threatEmpties_fold by simp

lemma isSingleBlockSafe_throws:
  assumes "moveNumber state \<noteq> 0" and "cellAt (board state) (fst q) (snd q) = Empty"
  shows "isSingleBlockSafe state rootPlayer q =
           Inl (if rootPlayer \<noteq> currentPlayer state then WrongPlayer else WrongStoneCount 2 1)"
  using assms
  by (simp add: isSingleBlockSafe_def applyMoveWithWinner_def getStonesToPlace_def Let_def)



subsection \<open>The winning move at the root\<close>

lemma set_detectWinningMoves:
  "set (detectWinningMoves state p) = {c. singlePointMate state p c}"
proof -
  let ?cond = "\<lambda>r. countCells (board state) (stoneOf (switchPlayer p)) (cells r) = 0 \<and>
           countCells (board state) (stoneOf p) (cells r) = 5"
  let ?S = "\<lambda>r. if ?cond r then set (emptyCells (board state) (cells r)) else {}"
  have "set (foldl (\<lambda>winningCells r.
        if ?cond r
        then foldl (\<lambda>acc c. addUnique c acc) winningCells (emptyCells (board state) (cells r))
        else winningCells) acc rs) = set acc \<union> (\<Union>r\<in>set rs. ?S r)" for acc rs
    by (rule set_foldl_union) (simp add: set_foldl_addUnique)
  from this [of "[]" ALL_ROADS]
  have "set (detectWinningMoves state p) = (\<Union>r\<in>set ALL_ROADS. ?S r)"
    unfolding detectWinningMoves_def getAllRoads_def by simp
  also have "\<dots> = {c. singlePointMate state p c}"
    unfolding singlePointMate_def list_ex_iff by (auto split: if_splits)
  finally show ?thesis .
qed

lemma detectVCDT_first_win:
  assumes "detectWinningMoves state p = c0 # rest"
  shows "findThreat True 0 (detectVCDT state p) =
           Some \<lparr>threatPositions = [c0], isWinning = True, threatLevel = 0\<rparr>"
  using assms by (simp add: findThreat_def detectVCDT_def Let_def)

lemma direction_in_DIRS: "d \<in> set DIRS"
  by (cases d) (simp_all add: DIRS_def)

lemma mate_cell_props:
  assumes "singlePointMate state p c"
  shows "isInsideBoard c \<and> cellAt (board state) (fst c) (snd c) = Empty"
proof -
  from assms obtain r where r: "r \<in> set ALL_ROADS"
    and c: "c \<in> set (emptyCells (board state) (cells r))"
    by (auto simp: singlePointMate_def list_ex_iff)
  from c have "c \<in> set (cells r)" and e: "cellAt (board state) (fst c) (snd c) = Empty"
    by (simp_all add: emptyCells_def)
  with road_cells_inside [OF r] show ?thesis by (simp add: list_all_iff)
qed

lemma threatEmpties_single:
  assumes "isInsideBoard c" and "cellAt (board state) (fst c) (snd c) = Empty"
  shows "threatEmpties state \<lparr>threatPositions = [c], isWinning = w, threatLevel = l\<rparr> = [c]"
  using assms by (simp add: threatEmpties_def addUnique_def)

lemma buildTwoStoneMove_single:
  assumes "isInsideBoard c" and "cellAt (board state) (fst c) (snd c) = Empty"
  shows "buildTwoStoneMoveFromThreat state p
           \<lparr>threatPositions = [c], isWinning = True, threatLevel = 0\<rparr> =
         \<lparr>player = p, positions = [c, companionFor state c]\<rparr>"
  by (simp add: buildTwoStoneMoveFromThreat_def Let_def threatEmpties_single [OF assms])

lemma foldl_subset:
  assumes "\<And>r x. x \<in> set xs \<Longrightarrow> set (f r x) \<subseteq> set r \<union> S"
  shows "set (foldl f r0 xs) \<subseteq> set r0 \<union> S"
  using assms
proof (induction xs arbitrary: r0)
  case Nil
  show ?case by simp
next
  case (Cons x xs)
  have "set (foldl f (f r0 x) xs) \<subseteq> set (f r0 x) \<union> S"
    by (rule Cons.IH) (simp add: Cons.prems)
  moreover have "set (f r0 x) \<subseteq> set r0 \<union> S" by (rule Cons.prems) simp
  ultimately show ?case by auto
qed

lemma zoneAround_free:
  "set (zoneAround b radius p res) \<subseteq> set res \<union> {q. freeCell b q}"
  unfolding zoneAround_def
  by (rule foldl_subset, rule foldl_subset)
     (auto simp: Let_def set_addUnique freeCell_def isInsideBoard_def)

lemma computeRelevantZones_free:
  "set (computeRelevantZones state radius) \<subseteq> {q. freeCell (board state) q}"
proof (cases "length (occupiedCells (board state)) = 0")
  case True
  then show ?thesis
    by (auto simp: computeRelevantZones_def Let_def freeCell_def isInsideBoard_def BOARD_SIZE_def)
next
  case False
  have "set (foldl (\<lambda>res p. zoneAround (board state) radius p res) [] (occupiedCells (board state)))
          \<subseteq> set [] \<union> {q. freeCell (board state) q}"
    by (rule foldl_subset) (rule zoneAround_free)
  with False show ?thesis by (simp add: computeRelevantZones_def Let_def)
qed

lemma window_inside:
  assumes "isInsideBoard (x, y)" and "isInsideBoard (x + dirDx d * 5, y + dirDy d * 5)"
    and "0 \<le> k" and "k \<le> 5"
  shows "isInsideBoard (x + dirDx d * k, y + dirDy d * k)"
  using assms by (cases d) (auto simp: isInsideBoard_def)

lemma urgentStep_free:
  assumes "isInsideBoard (x, y)"
  shows "set (urgentStep b myVal oppVal d y x res) \<subseteq> set res \<union> {q. freeCell b q}"
proof (cases "isInsideBoard (x + dirDx d * 5, y + dirDy d * 5)")
  case False
  then show ?thesis by (auto simp: urgentStep_def isInsideBoard_def)
next
  case True
  have "set (emptyCells b (map (\<lambda>k. (x + dirDx d * k, y + dirDy d * k)) [0..5]))
          \<subseteq> {q. freeCell b q}"
    using window_inside [OF assms True]
    by (auto simp: emptyCells_def freeCell_def simp del: upto.simps)
  then show ?thesis
    by (auto simp: urgentStep_def Let_def set_foldl_addUnique simp del: upto.simps)
qed

lemma findUrgentThreatBlocks_free:
  "set (findUrgentThreatBlocks state) \<subseteq> {q. freeCell (board state) q}"
proof -
  have "set (findUrgentThreatBlocks state) \<subseteq> set [] \<union> {q. freeCell (board state) q}"
    unfolding findUrgentThreatBlocks_def Let_def
    by (rule foldl_subset, rule foldl_subset, rule foldl_subset, rule urgentStep_free)
       (simp add: isInsideBoard_def)
  then show ?thesis by simp
qed

lemma rzopStep_subset:
  "set (candidates (rzopStep state urgent acc pos)) \<subseteq> insert pos (set (candidates acc))"
  by (auto simp: rzopStep_def Let_def set_addUnique)

lemma rzop_fold_subset:
  "set (candidates (foldl (rzopStep state urgent) acc rel)) \<subseteq> set (candidates acc) \<union> set rel"
proof (induction rel arbitrary: acc)
  case Nil
  show ?case by simp
next
  case (Cons pos rel)
  from Cons.IH [of "rzopStep state urgent acc pos"] rzopStep_subset [of state urgent acc pos]
  show ?case by auto
qed

lemma generateRZOPCandidates_free:
  "set (generateRZOPCandidates state) \<subseteq> {q. freeCell (board state) q}"
proof -
  let ?urgent = "findUrgentThreatBlocks state"
  let ?rel = "computeRelevantZones state 3"
  let ?ini = "\<lparr>candidates = foldl (\<lambda>cs p. addUnique p cs) [] ?urgent,
                  rowCount = Map.empty, diag1Count = Map.empty, diag2Count = Map.empty\<rparr>"
  have "set (candidates (foldl (rzopStep state ?urgent) ?ini ?rel)) \<subseteq> set (candidates ?ini) \<union> set ?rel"
    by (rule rzop_fold_subset)
  also have "\<dots> \<subseteq> {q. freeCell (board state) q}"
    using findUrgentThreatBlocks_free [of state] computeRelevantZones_free [of state 3]
    by (auto simp: set_foldl_addUnique)
  finally show ?thesis
    using computeRelevantZones_free [of state 3]
    unfolding generateRZOPCandidates_def Let_def by (simp add: jsSort_set)
qed

lemma companionFor_free:
  assumes "freeCell (board state) c"
  shows "freeCell (board state) (companionFor state c)"
proof (cases "filter (\<lambda>q. \<not> (fst q = fst c \<and> snd q = snd c)) (generateRZOPCandidates state)")
  case Nil
  with assms show ?thesis by (simp add: companionFor_def)
next
  case (Cons a as)
  then have "a \<in> set (filter (\<lambda>q. \<not> (fst q = fst c \<and> snd q = snd c)) (generateRZOPCandidates state))"
    by simp
  then have "a \<in> set (generateRZOPCandidates state)" by simp
  with generateRZOPCandidates_free [of state] have "freeCell (board state) a" by blast
  with Cons show ?thesis by (simp add: companionFor_def)
qed

lemma length_le_one_unique: "length zs \<le> 1 \<Longrightarrow> x \<in> set zs \<Longrightarrow> y \<in> set zs \<Longrightarrow> x = y"
  by (cases zs) auto

lemma all_but_one:
  assumes "length (filter P xs) + 1 \<ge> length xs" and "x \<in> set xs" and "\<not> P x" and "y \<in> set xs"
  shows "P y \<or> y = x"
proof (rule ccontr)
  assume n: "\<not> (P y \<or> y = x)"
  have "length (filter P xs) + length (filter (\<lambda>z. \<not> P z) xs) = length xs"
    by (rule sum_length_filter_compl)
  with assms(1) have "length (filter (\<lambda>z. \<not> P z) xs) \<le> 1" by simp
  moreover from assms have "x \<in> set (filter (\<lambda>z. \<not> P z) xs)" by simp
  moreover from n assms have "y \<in> set (filter (\<lambda>z. \<not> P z) xs)" by simp
  ultimately have "x = y" by (rule length_le_one_unique)
  with n show False by simp
qed

lemma mate_gives_six:
  assumes wf: "wfBoard (board state)" and mate: "singlePointMate state p c"
    and ins: "list_all isInsideBoard ps" and mem: "c \<in> set ps"
  shows "hasSix (placeStones (board state) (stoneOf p) ps) (stoneOf p)"
proof -
  let ?b = "board state"
  let ?b' = "placeStones ?b (stoneOf p) ps"
  from mate obtain r where r: "r \<in> set ALL_ROADS"
    and five: "countCells ?b (stoneOf p) (cells r) = 5"
    and c: "c \<in> set (emptyCells ?b (cells r))"
    by (auto simp: singlePointMate_def list_ex_iff)
  from r have "cells r \<in> set (map cells ALL_ROADS)" by simp
  then have "cells r \<in> set roadCellLists" by (simp only: map_cells_ALL_ROADS)
  from road_cells_form [OF this] obtain d x y where
    form: "cells r = map (\<lambda>k. (x + dirDx d * k, y + dirDy d * k)) [0..5]"
    and inside: "\<forall>k\<in>set [0..5]. isInsideBoard (x + dirDx d * k, y + dirDy d * k)"
    by (elim exE conjE)
  from form have len: "length (cells r) = 6" by simp
  from c have cin: "c \<in> set (cells r)" and cemp: "cellAt ?b (fst c) (snd c) = Empty"
    by (simp_all add: emptyCells_def)
  have notp: "\<not> cellAt ?b (fst c) (snd c) = stoneOf p"
    using cemp by (simp add: stoneOf_def)
  have each: "cellAt ?b' (fst q) (snd q) = stoneOf p" if q: "q \<in> set (cells r)" for q
  proof -
    from five len have "length (filter (\<lambda>q. cellAt ?b (fst q) (snd q) = stoneOf p) (cells r)) + 1
        \<ge> length (cells r)"
      by (simp add: countCells_def)
    from all_but_one [OF this cin notp q]
    have "cellAt ?b (fst q) (snd q) = stoneOf p \<or> q = c" .
    moreover from road_cells_inside [OF r] q have "isInsideBoard q" by (simp add: list_all_iff)
    ultimately show ?thesis
      using mem by (auto simp: cellAt_placeStones [OF wf ins])
  qed
  have "sixAt ?b' (stoneOf p) (x, y) d"
    unfolding sixAt_def list_all_iff
  proof
    fix k :: nat
    assume "k \<in> set [0..<6]"
    then have k: "int k \<in> set [0..5]" by auto
    with inside have i: "isInsideBoard (x + dirDx d * int k, y + dirDy d * int k)" by blast
    from k have "(x + dirDx d * int k, y + dirDy d * int k) \<in> set (cells r)"
      unfolding form set_map by (rule imageI)
    from each [OF this] i
    show "isInsideBoard (fst (x, y) + int k * dirDx d, snd (x, y) + int k * dirDy d) \<and>
          cellAt ?b' (fst (x, y) + int k * dirDx d) (snd (x, y) + int k * dirDy d) = stoneOf p"
      by (simp add: mult.commute)
  qed
  moreover have "(0::int) \<in> set [0..5]" by simp
  with inside have "isInsideBoard (x + dirDx d * 0, y + dirDy d * 0)" by blast
  then have "(x, y) \<in> set boardCells" by (simp add: set_boardCells)
  ultimately show ?thesis
    unfolding hasSix_def list_ex_iff using direction_in_DIRS [of d] by blast
qed

lemma apply_winning:
  assumes "legalMove state mv"
    and "hasSix (placeStones (board state) (stoneOf (player mv)) (positions mv)) c" and "c \<noteq> Empty"
  shows "\<exists>s'. applyMoveWithWinner state mv = Inr s' \<and> winner s' \<noteq> None"
proof -
  let ?next = "state
        \<lparr>board := placeStones (board state) (stoneOf (player mv)) (positions mv),
         lastMove := Some mv,
         currentPlayer := (if player mv = BLACK then WHITE else BLACK),
         moveNumber := moveNumber state + 1\<rparr>"
  from assms(1) have p: "player mv = currentPlayer state"
    and n: "int (length (positions mv)) = getStonesToPlace (moveNumber state) (player mv)"
    and cp: "checkPositions (board state) (positions mv) = None"
    by (simp_all add: legalMove_def checkPositions_None_iff list_all_iff)
  have "scanCells (board ?next) boardCells \<noteq> None"
    using scanCells_board_None [of "board ?next" c] assms(2,3) by auto
  then obtain w where "checkWinner ?next = Some w"
    by (auto simp: checkWinner_def)
  then show ?thesis
    unfolding applyMoveWithWinner_def Let_def using p n cp by simp
qed

lemma pvs_terminal:
  assumes "winner st \<noteq> None"
  shows "\<exists>r g'. pvs st rp tm a b depth w dl isPV g = (Inr r, g')"
  using assms by (subst pvs.simps) (simp add: Let_def)

lemma findVcdtRootMove_own_win:
  assumes "singlePointMate state p c"
  shows "\<exists>c0. singlePointMate state p c0 \<and>
           findVcdtRootMove state p =
             Inr (Some (\<lparr>player = p, positions = [c0, companionFor state c0]\<rparr>, ''own_win''))"
proof -
  from assms have "c \<in> set (detectWinningMoves state p)" by (simp add: set_detectWinningMoves)
  then obtain c0 rest where dw: "detectWinningMoves state p = c0 # rest"
    by (cases "detectWinningMoves state p") auto
  then have "c0 \<in> set (detectWinningMoves state p)" by simp
  then have m: "singlePointMate state p c0" by (simp add: set_detectWinningMoves)
  from mate_cell_props [OF m] have
    "buildTwoStoneMoveFromThreat state p \<lparr>threatPositions = [c0], isWinning = True, threatLevel = 0\<rparr> =
         \<lparr>player = p, positions = [c0, companionFor state c0]\<rparr>"
    by (simp add: buildTwoStoneMove_single)
  with detectVCDT_first_win [OF dw] m show ?thesis
    by (intro exI [of _ c0]) (simp add: findVcdtRootMove_def Let_def)
qed

lemma mate_road_shape:
  assumes "singlePointMate state p c"
  shows "\<exists>d x y j.
           (\<forall>k\<in>{0..5}. isInsideBoard (x + dirDx d * k, y + dirDy d * k) \<and>
              (cellAt (board state) (x + dirDx d * k) (y + dirDy d * k) = stoneOf p \<or>
               (x + dirDx d * k, y + dirDy d * k) = c)) \<and>
           j \<in> {0..5} \<and> c = (x + dirDx d * j, y + dirDy d * j) \<and>
           cellAt (board state) (fst c) (snd c) = Empty"
proof -
  let ?b = "board state"
  from assms obtain r where r: "r \<in> set ALL_ROADS"
    and five: "countCells ?b (stoneOf p) (cells r) = 5"
    and c: "c \<in> set (emptyCells ?b (cells r))"
    by (auto simp: singlePointMate_def list_ex_iff)
  from r have "cells r \<in> set (map cells ALL_ROADS)" by simp
  then have "cells r \<in> set roadCellLists" by (simp only: map_cells_ALL_ROADS)
  from road_cells_form [OF this] obtain d x y where
    form: "cells r = map (\<lambda>k. (x + dirDx d * k, y + dirDy d * k)) [0..5]"
    and inside: "\<forall>k\<in>set [0..5]. isInsideBoard (x + dirDx d * k, y + dirDy d * k)"
    by (elim exE conjE)
  from form have len: "length (cells r) = 6" by simp
  from c have cin: "c \<in> set (cells r)" and cemp: "cellAt ?b (fst c) (snd c) = Empty"
    by (simp_all add: emptyCells_def)
  have notp: "\<not> cellAt ?b (fst c) (snd c) = stoneOf p"
    using cemp by (simp add: stoneOf_def)
  from five len have most: "length (filter (\<lambda>q. cellAt ?b (fst q) (snd q) = stoneOf p) (cells r)) + 1
        \<ge> length (cells r)"
    by (simp add: countCells_def)
  have each: "isInsideBoard (x + dirDx d * k, y + dirDy d * k) \<and>
              (cellAt ?b (x + dirDx d * k) (y + dirDy d * k) = stoneOf p \<or>
               (x + dirDx d * k, y + dirDy d * k) = c)" if k: "k \<in> {0..5}" for k
  proof -
    from k have k': "k \<in> set [0..5]" by simp
    then have "(x + dirDx d * k, y + dirDy d * k) \<in> set (cells r)"
      unfolding form set_map by (rule imageI)
    from all_but_one [OF most cin notp this] inside k' show ?thesis by auto
  qed
  from cin obtain j where "j \<in> set [0..5]" and "c = (x + dirDx d * j, y + dirDy d * j)"
    unfolding form set_map by blast
  with each cemp show ?thesis by (intro exI [of _ d] exI [of _ x] exI [of _ y] exI [of _ j]) simp
qed


text \<open>
  The example position: five black stones in a row, closed by a white stone on the left
  and open on the right, Black to move on the seventh turn. Its only single-point mate
  cell is the open end of the row: a road through five of the black stones lies in their
  row, and the road that starts one cell further left holds the white stone.
\<close>

lemma example_row_window:
  fixes x y cx cy j :: int
  assumes "\<And>k. k \<in> {0..5} \<Longrightarrow> (y = 9 \<and> 5 \<le> x + k \<and> x + k \<le> 9) \<or> (x + k = cx \<and> y = cy)"
    and "cx = x + j" "cy = y" "0 \<le> j" "j \<le> 5"
    and "\<not> (cy = 9 \<and> 5 \<le> cx \<and> cx \<le> 9)" and "\<not> (cx = 4 \<and> cy = 9)"
  shows "cx = 10 \<and> cy = 9"
proof -
  from assms(1) [of 0] assms(1) [of 1] assms(1) [of 2] assms(1) [of 3] assms(1) [of 4] assms(1) [of 5]
  have "(y = 9 \<and> 5 \<le> x + 0 \<and> x + 0 \<le> 9) \<or> (x + 0 = cx \<and> y = cy)"
    "(y = 9 \<and> 5 \<le> x + 1 \<and> x + 1 \<le> 9) \<or> (x + 1 = cx \<and> y = cy)"
    "(y = 9 \<and> 5 \<le> x + 2 \<and> x + 2 \<le> 9) \<or> (x + 2 = cx \<and> y = cy)"
    "(y = 9 \<and> 5 \<le> x + 3 \<and> x + 3 \<le> 9) \<or> (x + 3 = cx \<and> y = cy)"
    "(y = 9 \<and> 5 \<le> x + 4 \<and> x + 4 \<le> 9) \<or> (x + 4 = cx \<and> y = cy)"
    "(y = 9 \<and> 5 \<le> x + 5 \<and> x + 5 \<le> 9) \<or> (x + 5 = cx \<and> y = cy)"
    by simp_all
  with assms(2-) show ?thesis by presburger
qed

lemma example_column_window:
  fixes x y cx cy :: int and dx :: int
  assumes "\<And>k. k \<in> {0..5} \<Longrightarrow> (y + k = 9 \<and> 5 \<le> x + dx * k \<and> x + dx * k \<le> 9) \<or> (x + dx * k = cx \<and> y + k = cy)"
  shows "False"
proof -
  from assms [of 0] assms [of 1] assms [of 2]
  have "(y + 0 = 9 \<and> 5 \<le> x + dx * 0 \<and> x + dx * 0 \<le> 9) \<or> (x + dx * 0 = cx \<and> y + 0 = cy)"
    "(y + 1 = 9 \<and> 5 \<le> x + dx * 1 \<and> x + dx * 1 \<le> 9) \<or> (x + dx * 1 = cx \<and> y + 1 = cy)"
    "(y + 2 = 9 \<and> 5 \<le> x + dx * 2 \<and> x + dx * 2 \<le> 9) \<or> (x + dx * 2 = cx \<and> y + 2 = cy)"
    by simp_all
  then show False by auto
qed

lemma example_antidiagonal_window:
  fixes x y cx cy :: int
  assumes "\<And>k. k \<in> {0..5} \<Longrightarrow> (y - k = 9 \<and> 5 \<le> x + k \<and> x + k \<le> 9) \<or> (x + k = cx \<and> y - k = cy)"
  shows "False"
proof -
  from assms [of 0] assms [of 1] assms [of 2]
  have "(y - 0 = 9 \<and> 5 \<le> x + 0 \<and> x + 0 \<le> 9) \<or> (x + 0 = cx \<and> y - 0 = cy)"
    "(y - 1 = 9 \<and> 5 \<le> x + 1 \<and> x + 1 \<le> 9) \<or> (x + 1 = cx \<and> y - 1 = cy)"
    "(y - 2 = 9 \<and> 5 \<le> x + 2 \<and> x + 2 \<le> 9) \<or> (x + 2 = cx \<and> y - 2 = cy)"
    by simp_all
  then show False by auto
qed

lemma mate_example_unique:
  "{c. singlePointMate (createInitialState
      \<lparr>board := placeStones (placeStones createEmptyBoard Black [(5, 9), (6, 9), (7, 9), (8, 9), (9, 9)])
                  White [(4, 9), (5, 10), (6, 10), (7, 10), (8, 11), (3, 3)],
       moveNumber := 6\<rparr>) BLACK c} = {(10, 9)}"
proof -
  let ?s = "createInitialState
      \<lparr>board := placeStones (placeStones createEmptyBoard Black [(5, 9), (6, 9), (7, 9), (8, 9), (9, 9)])
                  White [(4, 9), (5, 10), (6, 10), (7, 10), (8, 11), (3, 3)],
       moveNumber := 6\<rparr>"
  have black: "cellAt (board ?s) X Y = Black \<longleftrightarrow> Y = 9 \<and> 5 \<le> X \<and> X \<le> 9"
    if "isInsideBoard (X, Y)" for X Y
    using that by (auto simp: board_eval simp del: placeStones.simps)
  have empty: "\<not> (Y = 9 \<and> 5 \<le> X \<and> X \<le> 9) \<and> \<not> (X = 4 \<and> Y = 9)"
    if "isInsideBoard (X, Y)" and "cellAt (board ?s) X Y = Empty" for X Y
    using that by (auto simp: board_eval simp del: placeStones.simps split: if_splits)
  have "\<exists>r\<in>set ALL_ROADS. cells r = map (\<lambda>k. (5 + dirDx DirH * k, 9 + dirDy DirH * k)) [0..5]"
    by (rule road_mem) (simp_all add: DIRS_def board_eval)
  then obtain r where r: "r \<in> set ALL_ROADS"
    and c: "cells r = [(5, 9), (6, 9), (7, 9), (8, 9), (9, 9), (10, 9)]"
    by (auto simp: upto_0_5)
  have "countCells (board ?s) (stoneOf BLACK) (cells r) = 5 \<and>
        countCells (board ?s) (stoneOf (switchPlayer BLACK)) (cells r) = 0 \<and>
        (10, 9) \<in> set (emptyCells (board ?s) (cells r))"
    unfolding c
    by (simp add: countCells_def emptyCells_def stoneOf_def switchPlayer_def board_eval
          del: placeStones.simps)
  with r have mate: "singlePointMate ?s BLACK (10, 9)"
    unfolding singlePointMate_def list_ex_iff by blast
  have "c = (10, 9)" if m: "singlePointMate ?s BLACK c" for c
  proof -
    from mate_road_shape [OF m] obtain d x y j where
      each: "\<And>k. k \<in> {0..5} \<Longrightarrow> isInsideBoard (x + dirDx d * k, y + dirDy d * k) \<and>
              (cellAt (board ?s) (x + dirDx d * k) (y + dirDy d * k) = stoneOf BLACK \<or>
               (x + dirDx d * k, y + dirDy d * k) = c)"
      and j: "j \<in> {0..5}" and cj: "c = (x + dirDx d * j, y + dirDy d * j)"
      and cemp: "cellAt (board ?s) (fst c) (snd c) = Empty"
      by blast
    have step: "(y + dirDy d * k = 9 \<and> 5 \<le> x + dirDx d * k \<and> x + dirDx d * k \<le> 9) \<or>
                (x + dirDx d * k = fst c \<and> y + dirDy d * k = snd c)" if "k \<in> {0..5}" for k
      using each [OF that] black [of "x + dirDx d * k" "y + dirDy d * k"]
      by (auto simp: stoneOf_def)
    from each [OF j] cj have "isInsideBoard (fst c, snd c)" by simp
    from empty [OF this cemp] have notb: "\<not> (snd c = 9 \<and> 5 \<le> fst c \<and> fst c \<le> 9)"
      and notw: "\<not> (fst c = 4 \<and> snd c = 9)" by simp_all
    show ?thesis
    proof (cases d)
      case DirH
      have "fst c = 10 \<and> snd c = 9"
      proof (rule example_row_window [where x = x and y = y and j = j])
        fix k :: int assume "k \<in> {0..5}"
        from step [OF this] DirH
        show "(y = 9 \<and> 5 \<le> x + k \<and> x + k \<le> 9) \<or> (x + k = fst c \<and> y = snd c)" by simp
      qed (use cj j notb notw DirH in simp_all)
      then show ?thesis by (cases c) simp
    next
      case DirV
      have False
      proof (rule example_column_window [where x = x and y = y and dx = 0 and cx = "fst c" and cy = "snd c"])
        fix k :: int assume "k \<in> {0..5}"
        from step [OF this] DirV
        show "(y + k = 9 \<and> 5 \<le> x + 0 * k \<and> x + 0 * k \<le> 9) \<or> (x + 0 * k = fst c \<and> y + k = snd c)"
          by simp
      qed
      then show ?thesis ..
    next
      case DirD
      have False
      proof (rule example_column_window [where x = x and y = y and dx = 1 and cx = "fst c" and cy = "snd c"])
        fix k :: int assume "k \<in> {0..5}"
        from step [OF this] DirD
        show "(y + k = 9 \<and> 5 \<le> x + 1 * k \<and> x + 1 * k \<le> 9) \<or> (x + 1 * k = fst c \<and> y + k = snd c)"
          by simp
      qed
      then show ?thesis ..
    next
      case DirA
      have False
      proof (rule example_antidiagonal_window [where x = x and y = y and cx = "fst c" and cy = "snd c"])
        fix k :: int assume "k \<in> {0..5}"
        from step [OF this] DirA
        show "(y - k = 9 \<and> 5 \<le> x + k \<and> x + k \<le> 9) \<or> (x + k = fst c \<and> y - k = snd c)"
          by simp
      qed
      then show ?thesis ..
    qed
  qed
  with mate show ?thesis by blast
qed


subsection \<open>Aspiration windows of the deepening loop\<close>

lemma jsNeg_antitone: "jsLessEq a b \<Longrightarrow> jsLessEq (jsNeg b) (jsNeg a)"
  by (cases a; cases b) (auto simp: jsLessEq_def)

lemma rootMoveLoop_log:
  assumes "jsLessEq alpha0 (iterAlpha st)"
  shows "\<exists>new. snd (snd (rootMoveLoop (logChild child) (logClock clock) rootState deadline d beta
                     i mvs st (g, lg))) = lg @ new \<and>
               list_all (inAspiration alpha0 beta) new"
  using assms
proof (induction mvs arbitrary: i st g lg)
  case Nil
  show ?case by simp
next
  case (Cons mv mvs)
  let ?hi = "jsNeg (iterAlpha st)"
  have hi: "jsLessEq ?hi (jsNeg alpha0)" using Cons.prems by (rule jsNeg_antitone)
  have pv: "inAspiration alpha0 beta (jsNeg beta, ?hi, d - 1, True)"
    using hi by (simp add: inAspiration_def)
  have nw: "inAspiration alpha0 beta (jsAdd ?hi (- 1), ?hi, d - 1, False)"
    using hi by (simp add: inAspiration_def)
  have step: "\<exists>new. snd (snd (rootMoveLoop (logChild child) (logClock clock) rootState deadline d
                     beta j mvs st1 (g1, lg @ pre))) = lg @ new \<and>
               list_all (inAspiration alpha0 beta) new"
    if "jsLessEq (iterAlpha st) (iterAlpha st1)" and "list_all (inAspiration alpha0 beta) pre"
    for j st1 g1 pre
  proof -
    from Cons.prems that(1) have "jsLessEq alpha0 (iterAlpha st1)" by (rule jsLessEq_trans)
    from Cons.IH [OF this, of j g1 "lg @ pre"] obtain new where
      "snd (snd (rootMoveLoop (logChild child) (logClock clock) rootState deadline d
                     beta j mvs st1 (g1, lg @ pre))) = lg @ pre @ new"
      and "list_all (inAspiration alpha0 beta) new" by auto
    with that(2) show ?thesis by (intro exI [of _ "pre @ new"]) simp
  qed
  show ?case
  proof (cases "applyMoveWithWinner rootState mv")
    case (Inl e)
    then show ?thesis by (simp add: rootMoveLoop.simps)
  next
    case (Inr nxt)
    let ?call = "if i = 0 \<or> iterFailed st
                then logChild child nxt (jsNeg beta) (jsNeg (iterAlpha st)) (d - 1) True (g, lg)
                else (case logChild child nxt (jsAdd (jsNeg (iterAlpha st)) (- 1)) (jsNeg (iterAlpha st))
                             (d - 1) False (g, lg) of
                        (Inl e, g1) \<Rightarrow> (Inl e, g1)
                      | (Inr r, g1) \<Rightarrow>
                          if jsLess (iterAlpha st) (jsNeg r) \<and> jsLess (jsNeg r) beta
                          then logChild child nxt (jsNeg beta) (jsNeg (iterAlpha st)) (d - 1) True g1
                          else (Inr r, g1))"
    have "\<exists>pre. (\<exists>rr g2. ?call = (rr, (g2, lg @ pre))) \<and> list_all (inAspiration alpha0 beta) pre"
    proof (cases "i = 0 \<or> iterFailed st")
      case True
      then show ?thesis
        using pv by (intro exI [of _ "[(jsNeg beta, ?hi, d - 1, True)]"]) (simp add: logChild_def)
    next
      case False
      show ?thesis
      proof (cases "fst (child nxt (jsAdd ?hi (- 1)) ?hi (d - 1) False g)")
        case (Inl e)
        with False show ?thesis
          using nw by (intro exI [of _ "[(jsAdd ?hi (- 1), ?hi, d - 1, False)]"]) (simp add: logChild_def)
      next
        case (Inr r)
        show ?thesis
        proof (cases "jsLess (iterAlpha st) (jsNeg r) \<and> jsLess (jsNeg r) beta")
          case True
          with False Inr show ?thesis
            using nw pv
            by (intro exI [of _ "[(jsAdd ?hi (- 1), ?hi, d - 1, False), (jsNeg beta, ?hi, d - 1, True)]"])
               (simp add: logChild_def)
        next
          case F: False
          with False Inr show ?thesis
            using nw by (intro exI [of _ "[(jsAdd ?hi (- 1), ?hi, d - 1, False)]"]) (simp add: logChild_def)
        qed
      qed
    qed
    then obtain rr g2 pre where call: "?call = (rr, (g2, lg @ pre))"
      and pre: "list_all (inAspiration alpha0 beta) pre" by blast
    show ?thesis
    proof (cases rr)
      case (Inl e)
      with Inr call pre show ?thesis
        by (simp only: rootMoveLoop.simps) (simp del: list_all_append)
    next
      case r: (Inr r)
      let ?st1 = "if jsLess (iterBestScore st) (jsNeg r)
                  then st\<lparr>iterBestScore := jsNeg r, iterBestMove := mv,
                          iterAlpha := (if jsLess (iterAlpha st) (jsNeg r) then jsNeg r
                                        else iterAlpha st)\<rparr>
                  else st"
      have up: "jsLessEq (iterAlpha st) (iterAlpha ?st1)" by (simp add: jsLessEq_def)
      show ?thesis
      proof (cases "fst (clock g2) > deadline")
        case True
        with Inr call pre r show ?thesis
          by (simp only: rootMoveLoop.simps) (simp add: Let_def logClock_def)
      next
        case False
        from step [OF up pre, of "i + 1" "snd (clock g2)"] False Inr call r show ?thesis
          by (simp only: rootMoveLoop.simps) (simp add: Let_def logClock_def)
      qed
    qed
  qed
qed

lemma logChild_eq:
  "logChild child nxt a b depth isPV (g, lg) =
     (case child nxt a b depth isPV g of (r, g') \<Rightarrow> (r, (g', lg @ [(a, b, depth, isPV)])))"
  by (simp add: logChild_def split: prod.splits)

lemma logClock_eq: "logClock clock (g, lg) = (fst (clock g), (snd (clock g), lg))"
  by (simp add: logClock_def)

lemma logOrder_eq: "logOrder order d (g, lg) = order d g"
  by (simp add: logOrder_def)

lemma rootMoveLoop_sim:
  "\<exists>lg'. rootMoveLoop (logChild child) (logClock clock) rootState deadline d beta i mvs st (g, lg) =
     (fst (rootMoveLoop child clock rootState deadline d beta i mvs st g),
      (snd (rootMoveLoop child clock rootState deadline d beta i mvs st g), lg'))"
proof (induction mvs arbitrary: i st g lg)
  case Nil
  show ?case by simp
next
  case (Cons mv mvs)
  show ?case
  proof (cases "applyMoveWithWinner rootState mv")
    case (Inl e)
    then show ?thesis by simp
  next
    case (Inr nxt)
    let ?plain = "if i = 0 \<or> iterFailed st
                then child nxt (jsNeg beta) (jsNeg (iterAlpha st)) (d - 1) True g
                else (case child nxt (jsAdd (jsNeg (iterAlpha st)) (- 1)) (jsNeg (iterAlpha st))
                             (d - 1) False g of
                        (Inl e, g1) \<Rightarrow> (Inl e, g1)
                      | (Inr r, g1) \<Rightarrow>
                          if jsLess (iterAlpha st) (jsNeg r) \<and> jsLess (jsNeg r) beta
                          then child nxt (jsNeg beta) (jsNeg (iterAlpha st)) (d - 1) True g1
                          else (Inr r, g1))"
    let ?call = "if i = 0 \<or> iterFailed st
                then logChild child nxt (jsNeg beta) (jsNeg (iterAlpha st)) (d - 1) True (g, lg)
                else (case logChild child nxt (jsAdd (jsNeg (iterAlpha st)) (- 1)) (jsNeg (iterAlpha st))
                             (d - 1) False (g, lg) of
                        (Inl e, g1) \<Rightarrow> (Inl e, g1)
                      | (Inr r, g1) \<Rightarrow>
                          if jsLess (iterAlpha st) (jsNeg r) \<and> jsLess (jsNeg r) beta
                          then logChild child nxt (jsNeg beta) (jsNeg (iterAlpha st)) (d - 1) True g1
                          else (Inr r, g1))"
    obtain rr g2 where plain: "?plain = (rr, g2)" by (cases ?plain)
    have "\<exists>lg1. ?call = (rr, (g2, lg1))"
      using plain by (auto simp: logChild_eq split: prod.splits sum.splits if_splits)
    then obtain lg1 where call: "?call = (rr, (g2, lg1))" by blast
    show ?thesis
    proof (cases rr)
      case (Inl e)
      with Inr plain call show ?thesis
        by (simp only: rootMoveLoop.simps) simp
    next
      case r: (Inr r)
      let ?st1 = "if jsLess (iterBestScore st) (jsNeg r)
                  then st\<lparr>iterBestScore := jsNeg r, iterBestMove := mv,
                          iterAlpha := (if jsLess (iterAlpha st) (jsNeg r) then jsNeg r
                                        else iterAlpha st)\<rparr>
                  else st"
      show ?thesis
      proof (cases "fst (clock g2) > deadline")
        case True
        with Inr plain call r show ?thesis
          by (simp only: rootMoveLoop.simps) (simp add: Let_def logClock_eq)
      next
        case False
        from Cons.IH [of "i + 1" ?st1 "snd (clock g2)" lg1] False Inr plain call r show ?thesis
          by (simp only: rootMoveLoop.simps) (simp add: Let_def logClock_eq)
      qed
    qed
  qed
qed

lemma iterativeDeepening_sim:
  "\<exists>lg'. iterativeDeepening (logChild child) (logClock clock) (logOrder order) rootState deadline
            maxDepth d best (g, lg) =
     (fst (iterativeDeepening child clock order rootState deadline maxDepth d best g),
      (snd (iterativeDeepening child clock order rootState deadline maxDepth d best g), lg'))"
proof (induction "nat (maxDepth + 1 - d)" arbitrary: d best g lg)
  case 0
  then have "\<not> d \<le> maxDepth" by simp
  then show ?case by (simp add: iterativeDeepening.simps)
next
  case (Suc n)
  then have le: "d \<le> maxDepth" by simp
  show ?case
  proof (cases "deadline - fst (clock g) < 100")
    case True
    with le show ?thesis
      by (subst iterativeDeepening.simps, subst (1 2) iterativeDeepening.simps)
         (simp add: Let_def logClock_eq)
  next
    case False
    show ?thesis
    proof (cases "order d (snd (clock g))")
      case (Inl e)
      with le False show ?thesis
        by (subst iterativeDeepening.simps, subst (1 2) iterativeDeepening.simps)
           (simp add: Let_def logClock_eq logOrder_eq split del: if_split cong: if_weak_cong)
    next
      case (Inr mvs)
      let ?alpha = "if d = 1 then NegInfinity else jsAdd (rootBestScore best) (- ASPIRATION_WINDOW)"
      let ?beta = "if d = 1 then Infinity else jsAdd (rootBestScore best) ASPIRATION_WINDOW"
      let ?ini = "\<lparr>iterAlpha = ?alpha, iterBestMove = rootBestMove best,
                           iterBestScore = NegInfinity, iterFailed = False\<rparr>"
      let ?R = "rootMoveLoop child clock rootState deadline d ?beta 0 mvs ?ini (snd (clock g))"
      obtain r g2 where R: "?R = (r, g2)" by (cases ?R)
      from rootMoveLoop_sim [of child clock rootState deadline d ?beta 0 mvs ?ini "snd (clock g)" lg]
      obtain lg1 where loop: "rootMoveLoop (logChild child) (logClock clock) rootState deadline d
           ?beta 0 mvs ?ini (snd (clock g), lg) = (r, (g2, lg1))" unfolding R by auto
      show ?thesis
      proof (cases r)
        case e: (Inl e)
        with le False Inr loop R show ?thesis
          by (subst iterativeDeepening.simps, subst (1 2) iterativeDeepening.simps)
             (simp add: Let_def logClock_eq logOrder_eq split del: if_split cong: if_weak_cong)
      next
        case st: (Inr st)
        let ?best = "if \<not> iterFailed st \<or> d = 1
                          then \<lparr>rootBestMove = iterBestMove st, rootBestScore = iterBestScore st,
                                rootSearchedDepth = d\<rparr>
                          else best"
        from Suc.hyps(2) have "n = nat (maxDepth + 1 - (d + 1))" by simp
        from Suc.hyps(1) [OF this, of ?best g2 lg1] le False Inr loop st R show ?thesis
          by (subst iterativeDeepening.simps, subst (1 2) iterativeDeepening.simps)
             (simp add: Let_def logClock_eq logOrder_eq split del: if_split cong: if_weak_cong)
      qed
    qed
  qed
qed

text \<open>
  C3 (amended). In an iteration of depth \<open>d \<ge> 2\<close> that the deadline lets start, the root
  loop runs once, with the window of 50000 on either side of the best score committed so
  far; every child search it makes has an upper bound of at most \<open>-(bestScore - 50000)\<close>
  and is either a full-window or a null-window search, so none has the infinite window;
  and its result is committed, whatever the score, unless the deadline cut the loop. The
  deepening then goes on with depth \<open>d + 1\<close>: no iteration is run again.
\<close>

theorem aspiration_iteration_no_restart:
  assumes "2 \<le> d" and "d \<le> maxDepth" and "\<not> deadline - fst (clock g) < 100"
    and "order d (snd (clock g)) = Inr mvs"
  shows "\<exists>r g2 new.
     rootMoveLoop (logChild child) (logClock clock) rootState deadline d
        (jsAdd (rootBestScore best) 50000) 0 mvs
        \<lparr>iterAlpha = jsAdd (rootBestScore best) (- 50000), iterBestMove = rootBestMove best,
         iterBestScore = NegInfinity, iterFailed = False\<rparr> (snd (clock g), lg)
       = (r, (g2, lg @ new)) \<and>
     list_all (inAspiration (jsAdd (rootBestScore best) (- 50000))
                 (jsAdd (rootBestScore best) 50000)) new \<and>
     iterativeDeepening (logChild child) (logClock clock) (logOrder order) rootState deadline
         maxDepth d best (g, lg) =
       (case r of
          Inl e \<Rightarrow> (Inl e, (g2, lg @ new))
        | Inr st \<Rightarrow>
            iterativeDeepening (logChild child) (logClock clock) (logOrder order) rootState
              deadline maxDepth (d + 1)
              (if iterFailed st then best
               else \<lparr>rootBestMove = iterBestMove st, rootBestScore = iterBestScore st,
                     rootSearchedDepth = d\<rparr>)
              (g2, lg @ new))"
proof -
  let ?alpha = "jsAdd (rootBestScore best) (- 50000)"
  let ?beta = "jsAdd (rootBestScore best) 50000"
  let ?ini = "\<lparr>iterAlpha = ?alpha, iterBestMove = rootBestMove best,
               iterBestScore = NegInfinity, iterFailed = False\<rparr>"
  let ?L = "rootMoveLoop (logChild child) (logClock clock) rootState deadline d ?beta 0 mvs ?ini
              (snd (clock g), lg)"
  have "jsLessEq ?alpha (iterAlpha ?ini)" by (simp add: jsLessEq_refl)
  from rootMoveLoop_log [OF this, of child clock rootState deadline d ?beta 0 mvs "snd (clock g)" lg]
  obtain new where lg: "snd (snd ?L) = lg @ new" and asp: "list_all (inAspiration ?alpha ?beta) new"
    by blast
  obtain r g2 where L: "?L = (r, (g2, lg @ new))"
    using lg by (cases ?L) auto
  from assms(1) have d1: "d \<noteq> 1" by simp
  have "iterativeDeepening (logChild child) (logClock clock) (logOrder order) rootState deadline
         maxDepth d best (g, lg) =
       (case r of
          Inl e \<Rightarrow> (Inl e, (g2, lg @ new))
        | Inr st \<Rightarrow>
            iterativeDeepening (logChild child) (logClock clock) (logOrder order) rootState
              deadline maxDepth (d + 1)
              (if iterFailed st then best
               else \<lparr>rootBestMove = iterBestMove st, rootBestScore = iterBestScore st,
                     rootSearchedDepth = d\<rparr>)
              (g2, lg @ new))"
    using assms(2,3,4) d1 L
    by (subst iterativeDeepening.simps)
       (simp add: Let_def logClock_eq logOrder_eq ASPIRATION_WINDOW_def split: sum.splits)
  with L asp show ?thesis by blast
qed

lemma first_move_applies:
  "\<exists>s'. applyMoveWithWinner createInitialState centreMove = Inr s'"
proof -
  have "legalMove createInitialState centreMove"
    by (simp add: legalMove_def getStonesToPlace_def createInitialState_def centreMove_def
          cellAt_createEmptyBoard isInsideBoard_def BOARD_SIZE_def)
  from apply_legal [OF this] show ?thesis by blast
qed

text \<open>
  Witness for C3: the second iteration of the scripted run, after a first iteration that
  committed the score 0 with one call of the child search.
\<close>

theorem aspiration_iteration_no_restart_witness:
  "(2::int) \<le> 2 \<and> \<not> 3000 - fst (frozenClock ()) < 100 \<and>
   centreOrder 2 (snd (frozenClock ())) = Inr [centreMove] \<and>
   (\<exists>r g2 new.
     rootMoveLoop (logChild scriptedChild) (logClock frozenClock) createInitialState 3000 2
        (jsAdd (rootBestScore \<lparr>rootBestMove = centreMove, rootBestScore = Num 0,
                                rootSearchedDepth = 1\<rparr>) 50000) 0 [centreMove]
        \<lparr>iterAlpha = jsAdd (rootBestScore \<lparr>rootBestMove = centreMove, rootBestScore = Num 0,
                                rootSearchedDepth = 1\<rparr>) (- 50000),
         iterBestMove = rootBestMove \<lparr>rootBestMove = centreMove, rootBestScore = Num 0,
                                rootSearchedDepth = 1\<rparr>,
         iterBestScore = NegInfinity, iterFailed = False\<rparr>
        (snd (frozenClock ()), [(NegInfinity, Infinity, 0, True)])
       = (r, (g2, [(NegInfinity, Infinity, 0, True)] @ new)) \<and>
     list_all (inAspiration
                 (jsAdd (rootBestScore \<lparr>rootBestMove = centreMove, rootBestScore = Num 0,
                                rootSearchedDepth = 1\<rparr>) (- 50000))
                 (jsAdd (rootBestScore \<lparr>rootBestMove = centreMove, rootBestScore = Num 0,
                                rootSearchedDepth = 1\<rparr>) 50000)) new \<and>
     iterativeDeepening (logChild scriptedChild) (logClock frozenClock) (logOrder centreOrder)
         createInitialState 3000 2 2
         \<lparr>rootBestMove = centreMove, rootBestScore = Num 0, rootSearchedDepth = 1\<rparr>
         ((), [(NegInfinity, Infinity, 0, True)]) =
       (case r of
          Inl e \<Rightarrow> (Inl e, (g2, [(NegInfinity, Infinity, 0, True)] @ new))
        | Inr st \<Rightarrow>
            iterativeDeepening (logChild scriptedChild) (logClock frozenClock)
              (logOrder centreOrder) createInitialState 3000 2 (2 + 1)
              (if iterFailed st
               then \<lparr>rootBestMove = centreMove, rootBestScore = Num 0, rootSearchedDepth = 1\<rparr>
               else \<lparr>rootBestMove = iterBestMove st, rootBestScore = iterBestScore st,
                     rootSearchedDepth = 2\<rparr>)
              (g2, [(NegInfinity, Infinity, 0, True)] @ new)))"
proof -
  have a: "(2::int) \<le> 2" by simp
  have t: "\<not> 3000 - fst (frozenClock ()) < 100" by (simp add: frozenClock_def)
  have o: "centreOrder 2 (snd (frozenClock ())) = Inr [centreMove]" by (simp add: centreOrder_def)
  from aspiration_iteration_no_restart [where d = 2 and maxDepth = 2 and deadline = 3000
      and clock = frozenClock and g = "()" and order = centreOrder and mvs = "[centreMove]"
      and child = scriptedChild and rootState = createInitialState
      and best = "\<lparr>rootBestMove = centreMove, rootBestScore = Num 0, rootSearchedDepth = 1\<rparr>"
      and lg = "[(NegInfinity, Infinity, 0, True)]", OF a a t o] a t o
  show ?thesis by blast
qed

text \<open>
  Counterexample to C3 as stated: in the scripted run the second iteration has the window
  (-50000, 50000) and its score 100000 fails high; the score is committed at depth 2 and
  the child search was called twice in all, once per iteration, never with the infinite
  window at depth 1.
\<close>

theorem aspiration_restart_counterexample:
  "iterativeDeepening (logChild scriptedChild) (logClock frozenClock) (logOrder centreOrder)
      createInitialState 3000 2 1
      \<lparr>rootBestMove = centreMove, rootBestScore = NegInfinity, rootSearchedDepth = 0\<rparr>
      ((), []) =
    (Inr \<lparr>rootBestMove = centreMove, rootBestScore = Num 100000, rootSearchedDepth = 2\<rparr>,
     ((), [(NegInfinity, Infinity, 0, True), (Num (- 50000), Num 50000, 1, True)])) \<and>
   jsLessEq (jsAdd (Num 0) ASPIRATION_WINDOW) (Num 100000)"
proof -
  from first_move_applies obtain s' where
    app: "applyMoveWithWinner createInitialState centreMove = Inr s'"
    by blast
  show ?thesis
    by (simp add: iterativeDeepening.simps [of _ _ _ _ _ _ 1] iterativeDeepening.simps [of _ _ _ _ _ _ 2]
          iterativeDeepening.simps [of _ _ _ _ _ _ 3] app Let_def logChild_eq logClock_eq logOrder_eq
          scriptedChild_def frozenClock_def centreOrder_def
          ASPIRATION_WINDOW_def jsLessEq_def)
qed

subsection \<open>The search tables across calls\<close>

lemma tablesFrom_refl: "tablesFrom g g"
proof -
  have "transpositionTable g = applyStores (transpositionTable g) []"
    and "historyTab g = applyUpdates (historyTab g) []"
    by (simp_all add: applyStores_def applyUpdates_def)
  then show ?thesis unfolding tablesFrom_def by blast
qed

lemma tablesFrom_trans:
  assumes "tablesFrom g g'" and "tablesFrom g' g''"
  shows "tablesFrom g g''"
proof -
  from assms obtain o1 o2 u1 u2 where
    "transpositionTable g' = applyStores (transpositionTable g) o1"
    "transpositionTable g'' = applyStores (transpositionTable g') o2"
    "historyTab g' = applyUpdates (historyTab g) u1"
    "historyTab g'' = applyUpdates (historyTab g') u2"
    unfolding tablesFrom_def by blast
  then have "transpositionTable g'' = applyStores (transpositionTable g) (o1 @ o2)"
    and "historyTab g'' = applyUpdates (historyTab g) (u1 @ u2)"
    by (simp_all add: applyStores_def applyUpdates_def)
  then show ?thesis unfolding tablesFrom_def by blast
qed

lemma tablesFrom_same:
  assumes "transpositionTable g' = transpositionTable g" and "historyTab g' = historyTab g"
  shows "tablesFrom g g'"
  using tablesFrom_refl [of g] assms by (simp add: tablesFrom_def)

lemma tablesFrom_store:
  "tablesFrom g (g\<lparr>transpositionTable := storeTT s d sc a b m (transpositionTable g)\<rparr>)"
proof -
  have "storeTT s d sc a b m (transpositionTable g) =
          applyStores (transpositionTable g) [(s, d, sc, a, b, m)]"
    and "historyTab g = applyUpdates (historyTab g) []"
    by (simp_all add: applyStores_def applyUpdates_def)
  then show ?thesis unfolding tablesFrom_def by (simp del: foldl_Cons) blast
qed

lemma tablesFrom_history:
  "tablesFrom g (g\<lparr>historyTab := foldl (\<lambda>h q. updateHistory p q d h) (historyTab g) qs\<rparr>)"
proof -
  have "foldl (\<lambda>h q. updateHistory p q d h) h qs =
          applyUpdates h (map (\<lambda>q. (p, q, d)) qs)" for h
    by (induction qs arbitrary: h) (simp_all add: applyUpdates_def)
  moreover have "transpositionTable g = applyStores (transpositionTable g) []"
    by (simp add: applyStores_def)
  ultimately show ?thesis unfolding tablesFrom_def by simp blast
qed

lemma tablesFrom_clock: "tablesFrom g (snd (getCurrentTime g))"
  by (rule tablesFrom_same) (simp_all add: getCurrentTime_def)

lemma tablesFrom_fields [simp]:
  "tablesFrom g (g'\<lparr>killerMoves := k\<rparr>) = tablesFrom g g'"
  "tablesFrom g (g'\<lparr>lastSearchNodeCount := n\<rparr>) = tablesFrom g g'"
  "tablesFrom g (g'\<lparr>lastSearchDepth := l\<rparr>) = tablesFrom g g'"
  "tablesFrom g (g'\<lparr>clockIndex := c\<rparr>) = tablesFrom g g'"
  by (simp_all add: tablesFrom_def)

lemma tablesFrom_store_after:
  "tablesFrom g g' \<Longrightarrow>
   tablesFrom g (g'\<lparr>transpositionTable := storeTT s d sc a b m (transpositionTable g')\<rparr>)"
  by (erule tablesFrom_trans) (rule tablesFrom_store)

lemma tablesFrom_history_after:
  "tablesFrom g g' \<Longrightarrow>
   tablesFrom g (g'\<lparr>historyTab := foldl (\<lambda>h q. updateHistory p q d h) (historyTab g') qs\<rparr>)"
  by (erule tablesFrom_trans) (rule tablesFrom_history)

lemma pvs_frame:
  "tablesFrom g0 (snd (pvs state rootPlayer toMove alpha beta depth weights deadline isPV g0))"
  and "tablesFrom g (snd (pvsLoop state rootPlayer toMove beta depth weights deadline isPV i mvs st g))"
proof (induction state rootPlayer toMove alpha beta depth weights deadline isPV g0
    and state rootPlayer toMove beta depth weights deadline isPV i mvs st g
    rule: pvs_pvsLoop.induct)
  case (1 state rootPlayer toMove alpha beta depth weights deadline isPV g0)
  let ?g1 = "g0\<lparr>lastSearchNodeCount := lastSearchNodeCount g0 + 1\<rparr>"
  let ?g = "snd (getCurrentTime ?g1)"
  let ?moves = "generateTwoStoneMoves state (generateRZOPCandidates state) toMove"
  have start: "tablesFrom g0 ?g"
    by (rule tablesFrom_same) (simp_all add: getCurrentTime_def)
  show ?case
  proof (cases "deadline < fst (getCurrentTime ?g1) \<or> winner state \<noteq> None \<or> depth \<le> 0 \<or>
                probeTT (transpositionTable ?g) state depth alpha beta \<noteq> None")
    case True
    then show ?thesis
      using start by (subst pvs.simps) (auto simp: Let_def split: option.splits)
  next
    case False
    show ?thesis
    proof (cases "length ?moves = 0")
      case True
      with False show ?thesis
        using tablesFrom_store_after [OF start]
        by (subst pvs.simps) (simp add: Let_def)
    next
      case nonempty: False
      show ?thesis
      proof (cases "orderMoves (historyTab ?g) (killerMoves ?g)
                      (if MAX_CHILD_MOVE_COMBOS < length ?moves
                       then take MAX_CHILD_MOVE_COMBOS ?moves else ?moves)
                      state rootPlayer toMove weights depth")
        case (Inl e)
        with False nonempty show ?thesis
          using start by (subst pvs.simps) (simp add: Let_def)
      next
        case (Inr ordered)
        let ?L = "pvsLoop state rootPlayer toMove beta depth weights deadline isPV 0 ordered
                    \<lparr>bestScoreOf = NegInfinity, bestMoveOf = None, localAlphaOf = alpha\<rparr> ?g"
        from False nonempty Inr have "tablesFrom ?g (snd ?L)"
          by (intro "1.IH" [OF refl refl refl _ _ _ _ refl]) auto
        with start have loop: "tablesFrom g0 (snd ?L)" by (rule tablesFrom_trans)
        obtain r g' where L: "?L = (r, g')" by (cases ?L)
        with loop have g': "tablesFrom g0 g'" by simp
        from False nonempty Inr L show ?thesis
          using g' tablesFrom_store_after [OF g']
          by (subst pvs.simps) (simp add: Let_def split: sum.splits option.splits)
      qed
    qed
  qed
next
  case (2 state rootPlayer toMove beta depth weights deadline isPV i st g)
  show ?case by (simp add: pvsLoop.simps tablesFrom_refl)
next
  case (3 state rootPlayer toMove beta depth weights deadline isPV i mv mvs st g)
  show ?case
  proof (cases "applyMoveWithWinner state mv")
    case (Inl e)
    then show ?thesis by (simp add: pvsLoop.simps tablesFrom_refl)
  next
    case (Inr nxt)
    let ?call = "if i = 0 \<or> \<not> isPV
            then pvs nxt rootPlayer (switchPlayer toMove) (jsNeg beta)
                  (jsNeg (localAlphaOf st)) (depth - 1) weights deadline isPV g
            else case pvs nxt rootPlayer (switchPlayer toMove)
                       (jsAdd (jsNeg (localAlphaOf st)) (- 1))
                       (jsNeg (localAlphaOf st)) (depth - 1) weights deadline False g of
                 (Inl e, g1) \<Rightarrow> (Inl e, g1)
                 | (Inr r, g1) \<Rightarrow>
                     if jsLess (localAlphaOf st) (jsNeg r) \<and> jsLess (jsNeg r) beta
                     then pvs nxt rootPlayer (switchPlayer toMove)
                           (jsNeg beta) (jsNeg (localAlphaOf st))
                           (depth - 1) weights deadline True g1
                     else (Inr r, g1)"
    obtain x y where call: "?call = (x, y)" by (cases ?call)
    have y: "tablesFrom g y"
    proof (cases "i = 0 \<or> \<not> isPV")
      case True
      from "3.IH"(1) [OF Inr True] call True show ?thesis by simp
    next
      case False
      let ?N = "pvs nxt rootPlayer (switchPlayer toMove) (jsAdd (jsNeg (localAlphaOf st)) (- 1))
                  (jsNeg (localAlphaOf st)) (depth - 1) weights deadline False g"
      obtain r0 g1 where N: "?N = (r0, g1)" by (cases ?N)
      from "3.IH"(2) [OF Inr False] N have g1: "tablesFrom g g1" by simp
      show ?thesis
      proof (cases r0)
        case (Inl e)
        with False N call g1 show ?thesis by simp
      next
        case r: (Inr r)
        show ?thesis
        proof (cases "jsLess (localAlphaOf st) (jsNeg r) \<and> jsLess (jsNeg r) beta")
          case True
          from N have "(r0, g1) = ?N" by simp
          from "3.IH"(3) [OF Inr False this r True]
          have "tablesFrom g1 (snd (pvs nxt rootPlayer (switchPlayer toMove) (jsNeg beta)
                  (jsNeg (localAlphaOf st)) (depth - 1) weights deadline True g1))" .
          with g1 have "tablesFrom g (snd (pvs nxt rootPlayer (switchPlayer toMove) (jsNeg beta)
                  (jsNeg (localAlphaOf st)) (depth - 1) weights deadline True g1))"
            by (rule tablesFrom_trans)
          with False N r True call show ?thesis by simp
        next
          case F: False
          with False N r call g1 show ?thesis by simp
        qed
      qed
    qed
    show ?thesis
    proof (cases x)
      case (Inl e)
      with Inr call y show ?thesis
        by (subst pvsLoop.simps) (simp del: pvs.simps)
    next
      case ba: (Inr ba)
      let ?score = "jsNeg ba"
      let ?st1 = "if jsLess (bestScoreOf st) ?score
                  then st\<lparr>bestScoreOf := ?score, bestMoveOf := Some mv\<rparr> else st"
      let ?raised = "jsLess (localAlphaOf ?st1) ?score"
      let ?st2 = "if ?raised then ?st1\<lparr>localAlphaOf := ?score\<rparr> else ?st1"
      let ?g3 = "if ?raised
                 then y\<lparr>historyTab := foldl (\<lambda>h q. updateHistory toMove q depth h)
                                         (historyTab y) (positions mv)\<rparr>
                 else y"
      have g3: "tablesFrom g ?g3"
      proof (cases ?raised)
        case True
        have "tablesFrom g (y\<lparr>historyTab := foldl (\<lambda>h q. updateHistory toMove q depth h)
                                         (historyTab y) (positions mv)\<rparr>)"
          by (rule tablesFrom_history_after [OF y])
        with True show ?thesis by (simp only: if_True)
      next
        case False
        with y show ?thesis by (simp only: if_False)
      qed
      show ?thesis
      proof (cases "jsLessEq beta (localAlphaOf ?st2)")
        case True
        with Inr call ba g3 show ?thesis
          by (subst pvsLoop.simps) (simp add: Let_def split del: if_split cong: if_weak_cong)
      next
        case False
        from call have "(x, y) = ?call" by simp
        from "3.IH"(4) [OF Inr this ba refl refl refl refl refl False]
        have "tablesFrom ?g3 (snd (pvsLoop state rootPlayer toMove beta depth weights deadline isPV
                 (i + 1) mvs ?st2 ?g3))" .
        with g3 have "tablesFrom g (snd (pvsLoop state rootPlayer toMove beta depth weights deadline
                 isPV (i + 1) mvs ?st2 ?g3))"
          by (rule tablesFrom_trans)
        with Inr call ba False show ?thesis
          by (subst pvsLoop.simps) (simp add: Let_def split del: if_split cong: if_weak_cong)
      qed
    qed
  qed
qed

lemma rootMoveLoop_frame:
  assumes child: "\<And>nxt a b dp pv g. tablesFrom g (snd (child nxt a b dp pv g))"
    and clock: "\<And>g. tablesFrom g (snd (clock g))"
  shows "tablesFrom g (snd (rootMoveLoop child clock rootState deadline d beta i mvs st g))"
proof (induction mvs arbitrary: i st g)
  case Nil
  show ?case by (simp add: tablesFrom_refl)
next
  case (Cons mv mvs)
  show ?case
  proof (cases "applyMoveWithWinner rootState mv")
    case (Inl e)
    then show ?thesis by (simp add: tablesFrom_refl)
  next
    case (Inr nxt)
    let ?call = "if i = 0 \<or> iterFailed st
                then child nxt (jsNeg beta) (jsNeg (iterAlpha st)) (d - 1) True g
                else (case child nxt (jsAdd (jsNeg (iterAlpha st)) (- 1)) (jsNeg (iterAlpha st))
                             (d - 1) False g of
                        (Inl e, g1) \<Rightarrow> (Inl e, g1)
                      | (Inr r, g1) \<Rightarrow>
                          if jsLess (iterAlpha st) (jsNeg r) \<and> jsLess (jsNeg r) beta
                          then child nxt (jsNeg beta) (jsNeg (iterAlpha st)) (d - 1) True g1
                          else (Inr r, g1))"
    obtain rr g2 where call: "?call = (rr, g2)" by (cases ?call)
    have g2: "tablesFrom g g2"
    proof (cases "i = 0 \<or> iterFailed st")
      case True
      with call child [of g nxt "jsNeg beta" "jsNeg (iterAlpha st)" "d - 1" True]
      show ?thesis by simp
    next
      case False
      let ?N = "child nxt (jsAdd (jsNeg (iterAlpha st)) (- 1)) (jsNeg (iterAlpha st)) (d - 1) False g"
      obtain r0 g1 where N: "?N = (r0, g1)" by (cases ?N)
      with child [of g nxt "jsAdd (jsNeg (iterAlpha st)) (- 1)" "jsNeg (iterAlpha st)" "d - 1" False]
      have g1: "tablesFrom g g1" by simp
      show ?thesis
      proof (cases r0)
        case (Inl e)
        with False N call g1 show ?thesis by simp
      next
        case r: (Inr r)
        show ?thesis
        proof (cases "jsLess (iterAlpha st) (jsNeg r) \<and> jsLess (jsNeg r) beta")
          case True
          from g1 child [of g1 nxt "jsNeg beta" "jsNeg (iterAlpha st)" "d - 1" True]
          have "tablesFrom g (snd (child nxt (jsNeg beta) (jsNeg (iterAlpha st)) (d - 1) True g1))"
            by (rule tablesFrom_trans)
          with False N r True call show ?thesis by simp
        next
          case F: False
          with False N r call g1 show ?thesis by simp
        qed
      qed
    qed
    from g2 clock [of g2] have g3: "tablesFrom g (snd (clock g2))" by (rule tablesFrom_trans)
    show ?thesis
    proof (cases rr)
      case (Inl e)
      with Inr call g2 show ?thesis
        by (simp only: rootMoveLoop.simps) simp
    next
      case r: (Inr r)
      let ?st1 = "if jsLess (iterBestScore st) (jsNeg r)
                  then st\<lparr>iterBestScore := jsNeg r, iterBestMove := mv,
                          iterAlpha := (if jsLess (iterAlpha st) (jsNeg r) then jsNeg r
                                        else iterAlpha st)\<rparr>
                  else st"
      show ?thesis
      proof (cases "fst (clock g2) > deadline")
        case True
        with Inr call r g3 show ?thesis
          by (simp only: rootMoveLoop.simps) (simp add: Let_def)
      next
        case False
        from g3 Cons.IH [where i = "i + 1" and st = ?st1 and g = "snd (clock g2)"]
        have "tablesFrom g (snd (rootMoveLoop child clock rootState deadline d beta (i + 1) mvs
                 ?st1 (snd (clock g2))))"
          by (rule tablesFrom_trans)
        with False Inr call r show ?thesis
          by (simp only: rootMoveLoop.simps) (simp add: Let_def)
      qed
    qed
  qed
qed

lemma iterativeDeepening_frame:
  assumes child: "\<And>nxt a b dp pv g. tablesFrom g (snd (child nxt a b dp pv g))"
    and clock: "\<And>g. tablesFrom g (snd (clock g))"
  shows "tablesFrom g (snd (iterativeDeepening child clock order rootState deadline maxDepth d
           best g))"
proof (induction "nat (maxDepth + 1 - d)" arbitrary: d best g)
  case 0
  then have "\<not> d \<le> maxDepth" by simp
  then show ?case by (simp add: iterativeDeepening.simps tablesFrom_refl)
next
  case (Suc n)
  then have le: "d \<le> maxDepth" by simp
  have g1: "tablesFrom g (snd (clock g))" by (rule clock)
  show ?case
  proof (cases "deadline - fst (clock g) < 100")
    case True
    with le g1 show ?thesis
      by (subst iterativeDeepening.simps) (simp add: Let_def)
  next
    case False
    show ?thesis
    proof (cases "order d (snd (clock g))")
      case (Inl e)
      with le False g1 show ?thesis
        by (subst iterativeDeepening.simps) (simp add: Let_def)
    next
      case (Inr mvs)
      let ?alpha = "if d = 1 then NegInfinity else jsAdd (rootBestScore best) (- ASPIRATION_WINDOW)"
      let ?beta = "if d = 1 then Infinity else jsAdd (rootBestScore best) ASPIRATION_WINDOW"
      let ?ini = "\<lparr>iterAlpha = ?alpha, iterBestMove = rootBestMove best,
                           iterBestScore = NegInfinity, iterFailed = False\<rparr>"
      let ?R = "rootMoveLoop child clock rootState deadline d ?beta 0 mvs ?ini (snd (clock g))"
      obtain r g2 where R: "?R = (r, g2)" by (cases ?R)
      from rootMoveLoop_frame [of child clock "snd (clock g)" rootState deadline d ?beta 0 mvs ?ini,
          OF child clock] R
      have "tablesFrom (snd (clock g)) g2" by simp
      with g1 have g2: "tablesFrom g g2" by (rule tablesFrom_trans)
      show ?thesis
      proof (cases r)
        case e: (Inl e)
        with le False Inr R g2 show ?thesis
          by (subst iterativeDeepening.simps)
             (simp add: Let_def split del: if_split cong: if_weak_cong)
      next
        case st: (Inr st)
        let ?best = "if \<not> iterFailed st \<or> d = 1
                          then \<lparr>rootBestMove = iterBestMove st, rootBestScore = iterBestScore st,
                                rootSearchedDepth = d\<rparr>
                          else best"
        from Suc.hyps(2) have "n = nat (maxDepth + 1 - (d + 1))" by simp
        from g2 Suc.hyps(1) [OF this, where best = ?best and g = g2]
        have "tablesFrom g (snd (iterativeDeepening child clock order rootState deadline maxDepth
                 (d + 1) ?best g2))"
          by (rule tablesFrom_trans)
        with le False Inr R st show ?thesis
          by (subst iterativeDeepening.simps)
             (simp add: Let_def split del: if_split cong: if_weak_cong)
      qed
    qed
  qed
qed

lemma pvs_frame_eq:
  "pvs state rootPlayer toMove alpha beta depth weights deadline isPV g = (r, g') \<Longrightarrow>
   tablesFrom g g'"
  using pvs_frame(1) [of g state rootPlayer toMove alpha beta depth weights deadline isPV] by simp

lemma pvsSearchBestMove_frame:
  "tablesFrom g0 (snd (pvsSearchBestMove rootState rootPlayer weights config g0))"
proof -
  let ?g2 = "g0\<lparr>lastSearchNodeCount := 0, killerMoves := resetKillers (killerMoves g0)\<rparr>"
  let ?g = "snd (getCurrentTime ?g2)"
  let ?deadline = "fst (getCurrentTime ?g2) + timeLimitMs config"
  let ?maxDepth = "max 1 (maxDepthOf config)"
  have start: "tablesFrom g0 ?g"
    by (rule tablesFrom_same) (simp_all add: getCurrentTime_def)
  have viaPvs: "tablesFrom g0 g'"
    if "pvs nxt rootPlayer (switchPlayer rootPlayer) a b dp weights ?deadline True ?g = (r, g')"
    for nxt a b dp r g'
    using start pvs_frame_eq [OF that] by (rule tablesFrom_trans)
  have viaIter: "tablesFrom g0 g'"
    if "iterativeDeepening
          (\<lambda>next a b depth isPV.
              pvs next rootPlayer (switchPlayer rootPlayer) a b depth weights ?deadline isPV)
          getCurrentTime order rootState ?deadline ?maxDepth 1 best ?g = (r, g')"
    for order best r g'
  proof -
    have "tablesFrom ?g (snd (iterativeDeepening
          (\<lambda>next a b depth isPV.
              pvs next rootPlayer (switchPlayer rootPlayer) a b depth weights ?deadline isPV)
          getCurrentTime order rootState ?deadline ?maxDepth 1 best ?g))"
      by (rule iterativeDeepening_frame) (rule pvs_frame(1), rule tablesFrom_clock)
    with that have "tablesFrom ?g g'" by simp
    with start show ?thesis by (rule tablesFrom_trans)
  qed
  show ?thesis
    unfolding pvsSearchBestMove_def Let_def
    using start
    by (auto split: sum.splits option.splits prod.splits dest: viaPvs viaIter)
qed

lemma resetKillers_empty: "resetKillers ks = replicate (length ks) (None, None)"
  by (simp add: resetKillers_def map_replicate_const)

lemma pvsSearchBestMove_killers:
  "pvsSearchBestMove rootState rootPlayer weights config g =
   pvsSearchBestMove rootState rootPlayer weights config
     (g\<lparr>killerMoves := replicate (length (killerMoves g)) (None, None)\<rparr>)"
  by (simp add: pvsSearchBestMove_def resetKillers_empty)

lemma keys_mapSet: "set (map fst (mapSet m k v)) = insert k (set (map fst m))"
  by (induction m) auto

lemma length_mapSet_le: "length (mapSet m k v) \<le> length m + 1"
  by (induction m) auto

lemma storeTT_keeps_keys:
  assumes "length tt < MAX_TT_ENTRIES"
  shows "set (map fst tt) \<subseteq> set (map fst (storeTT state depth score alpha beta bestMove tt))"
proof -
  have "\<not> length (mapSet tt k v) > MAX_TT_ENTRIES" for k v
    using assms length_mapSet_le [of tt k v] by simp
  then show ?thesis
    by (auto simp: storeTT_def Let_def keys_mapSet simp del: set_map split: option.splits)
qed

lemma updateHistory_keeps_keys:
  assumes "length h < MAX_HISTORY_ENTRIES"
  shows "set (map fst h) \<subseteq> set (map fst (updateHistory p q d h))"
proof -
  have "\<not> length (mapSet h k v) > MAX_HISTORY_ENTRIES" for k v
    using assms length_mapSet_le [of h k v] by simp
  then show ?thesis
    by (auto simp: updateHistory_def Let_def keys_mapSet simp del: set_map)
qed



end
